theory Spec2Isabelle
  imports Main
begin

section \<open>Python strings\<close>

text \<open>
  The text of a line is a Python \<^verbatim>\<open>str\<close>, modelled as a \<open>string\<close>; positions are
  Python integers, modelled as \<open>int\<close> (\<^verbatim>\<open>str.find\<close> answers \<open>-1\<close> for "not found").
\<close>

definition py_len :: "string \<Rightarrow> int" where
  "py_len s = int (length s)"

text \<open>\<^verbatim>\<open>s[i:i+len(sub)] == sub\<close> for an index \<open>i\<close> inside \<open>s\<close>.\<close>

definition occurs_at :: "string \<Rightarrow> string \<Rightarrow> nat \<Rightarrow> bool" where
  "occurs_at s sub i = (take (length sub) (drop i s) = sub)"

text \<open>
  The lowest index at which \<open>sub\<close> occurs in \<open>s\<close>, scanning from the left; the empty
  string occurs at index 0 of every string, also of the empty one.
\<close>

fun find_first :: "string \<Rightarrow> string \<Rightarrow> nat option" where
  "find_first sub [] = (if sub = [] then Some 0 else None)"
| "find_first sub (c # cs) =
     (if take (length sub) (c # cs) = sub then Some 0
      else map_option Suc (find_first sub cs))"

text \<open>
  \<^verbatim>\<open>s.find(sub, start)\<close>: a negative \<open>start\<close> counts from the end of \<open>s\<close> (and is clamped
  to 0), a \<open>start\<close> beyond the end finds nothing, not even the empty string; the answer
  is the lowest index \<open>\<ge> start\<close> where \<open>sub\<close> occurs, or \<open>-1\<close>.
\<close>

definition py_find :: "string \<Rightarrow> string \<Rightarrow> int \<Rightarrow> int" where
  "py_find s sub start =
     (let n = py_len s;
          st = (if start < 0 then max (start + n) 0 else start)
      in if n < st then -1
         else (case find_first sub (drop (nat st) s) of
                 None \<Rightarrow> -1
               | Some i \<Rightarrow> st + int i))"

text \<open>\<^verbatim>\<open>sub in s\<close>.\<close>

definition py_in :: "string \<Rightarrow> string \<Rightarrow> bool" where
  "py_in sub s = (find_first sub s \<noteq> None)"

text \<open>\<^verbatim>\<open>" " * n\<close>: the empty string for \<open>n \<le> 0\<close>.\<close>

definition spaces :: "int \<Rightarrow> string" where
  "spaces n = replicate (nat n) (CHR '' '')"

section \<open>LineObj\<close>

datatype error = NameError | IndexError | ValueError

record LineObj =
  begin_pt :: int
  end_pt :: int
  text_of :: string
  search_start :: int
  last_find :: int

text \<open>\<^verbatim>\<open>LineObj.__init__\<close>: both cursors start at 0.\<close>

definition LineObj_init :: "int \<Rightarrow> int \<Rightarrow> string \<Rightarrow> LineObj" where
  "LineObj_init b e t =
     \<lparr>begin_pt = b, end_pt = e, text_of = t, search_start = 0, last_find = 0\<rparr>"

text \<open>
  The loop of \<^verbatim>\<open>find_next\<close> (source line 56):
  \<^verbatim>\<open>while (pos < len(self.text)) and (self.text.find(alignstr, pos+asl) == pos+asl): pos += asl\<close>
  Nothing bounds it when \<open>asl = 0\<close>, so its result is an \<open>option\<close>: \<open>None\<close> is "the loop
  does not end".
\<close>

partial_function (option) last_in_run :: "string \<Rightarrow> string \<Rightarrow> int \<Rightarrow> int option" where
  "last_in_run txt alignstr pos =
     (if pos < py_len txt \<and> py_find txt alignstr (pos + py_len alignstr) = pos + py_len alignstr
      then last_in_run txt alignstr (pos + py_len alignstr)
      else Some pos)"

declare last_in_run.simps [code]

text \<open>
  \<^verbatim>\<open>LineObj.find_next\<close>. The result is the value returned (or the exception raised) and
  the tracker as the call leaves it; \<open>None\<close> when the call does not return. The name
  \<^verbatim>\<open>firstpos\<close> of the last statement is bound nowhere in the source: evaluating it
  raises \<^verbatim>\<open>NameError\<close>.
\<close>

definition find_next :: "LineObj \<Rightarrow> string \<Rightarrow> bool \<Rightarrow> ((error + int) \<times> LineObj) option" where
  "find_next self alignstr alignfirst =
     (let pos = py_find (text_of self) alignstr (search_start self) in
      if pos = -1 \<or> pos \<ge> py_len (text_of self)
      then Some (Inr (-1), self\<lparr>search_start := py_len (text_of self)\<rparr>)
      else
        let self1 = self\<lparr>search_start := pos + py_len alignstr, last_find := pos\<rparr> in
        if alignfirst then Some (Inr pos, self1)
        else
          (case last_in_run (text_of self1) alignstr pos of
             None \<Rightarrow> None
           | Some pos' \<Rightarrow>
               let self2 = self1\<lparr>search_start := pos' + py_len alignstr, last_find := pos'\<rparr>
               in Some (if \<not> alignfirst then Inr pos' else Inl NameError, self2)))"

text \<open>\<^verbatim>\<open>LineObj.insert\<close>.\<close>

definition insert_at :: "LineObj \<Rightarrow> int \<Rightarrow> string \<Rightarrow> LineObj" where
  "insert_at self pos0 val =
     (let pos = min (max pos0 0) (py_len (text_of self));
          self1 = (if pos \<le> search_start self
                   then self\<lparr>search_start := search_start self + py_len val\<rparr> else self);
          self2 = (if pos \<le> last_find self1
                   then self1\<lparr>last_find := last_find self1 + py_len val\<rparr> else self1)
      in if pos = 0 then self2\<lparr>text_of := val @ text_of self2\<rparr>
         else if pos = py_len (text_of self2) then self2\<lparr>text_of := text_of self2 @ val\<rparr>
         else self2\<lparr>text_of := take (nat pos) (text_of self2) @ val @ drop (nat pos) (text_of self2)\<rparr>)"

text \<open>The tracker invariant the data model states for a line.\<close>

definition tracker_inv :: "LineObj \<Rightarrow> bool" where
  "tracker_inv self =
     (0 \<le> search_start self \<and> search_start self \<le> py_len (text_of self) \<and>
      -1 \<le> last_find self \<and> last_find self < py_len (text_of self))"

text \<open>The position \<^verbatim>\<open>insert\<close> works with: \<^verbatim>\<open>min(max(pos, 0), len(self.text))\<close>.\<close>

definition clamp_pos :: "LineObj \<Rightarrow> int \<Rightarrow> int" where
  "clamp_pos self pos = min (max pos 0) (py_len (text_of self))"

section \<open>The alignment loop of \<^verbatim>\<open>align_by_selected_str\<close>\<close>

text \<open>
  \<^verbatim>\<open>Timer.has_ticked()\<close> reads the wall clock. Once it has answered \<^verbatim>\<open>True\<close> it answers
  \<^verbatim>\<open>True\<close> for ever, so a run of the clock is the number of calls that still answer
  \<^verbatim>\<open>False\<close>: the timer is a \<open>nat\<close>, each call spends one unit, and the call at 0 answers
  \<^verbatim>\<open>True\<close>.

  \<^verbatim>\<open>[line.find_next(alignstr, alignfirst) for line in lines]\<close>: the calls run from left to
  right, each on its own tracker; an exception or a call that does not return ends the
  comprehension.
\<close>

fun find_next_all ::
  "LineObj list \<Rightarrow> string \<Rightarrow> bool \<Rightarrow> ((error + int list) \<times> LineObj list) option" where
  "find_next_all [] alignstr alignfirst = Some (Inr [], [])"
| "find_next_all (line # lines) alignstr alignfirst =
     (case find_next line alignstr alignfirst of
        None \<Rightarrow> None
      | Some (Inl e, line') \<Rightarrow> Some (Inl e, line' # lines)
      | Some (Inr pos, line') \<Rightarrow>
          (case find_next_all lines alignstr alignfirst of
             None \<Rightarrow> None
           | Some (Inl e, lines') \<Rightarrow> Some (Inl e, line' # lines')
           | Some (Inr ps, lines') \<Rightarrow> Some (Inr (pos # ps), line' # lines')))"

text \<open>\<^verbatim>\<open>max(xs)\<close> raises \<^verbatim>\<open>ValueError\<close> on the empty list.\<close>

fun py_max :: "int list \<Rightarrow> error + int" where
  "py_max [] = Inl ValueError"
| "py_max (x # xs) = Inr (fold max xs x)"

text \<open>
  The body of \<^verbatim>\<open>for line in lines\<close> (source lines 215 to 219): the position is read from
  \<^verbatim>\<open>line.last_find\<close>, not from what \<^verbatim>\<open>find_next\<close> returned.
\<close>

definition pad_line :: "int \<Rightarrow> LineObj \<Rightarrow> LineObj" where
  "pad_line maxpos line =
     (let linepos = last_find line in
      if linepos < 0 then line
      else if linepos < maxpos then insert_at line linepos (spaces (maxpos - linepos))
      else line)"

datatype loop_exit = Break | Timeout | Raised error

text \<open>
  \<^verbatim>\<open>while True:\<close> of source lines 202 to 219. \<open>Timeout\<close> is the \<^verbatim>\<open>return\<close> after the timer
  has ticked, \<open>Break\<close> the \<^verbatim>\<open>break\<close> at \<^verbatim>\<open>maxpos < 0\<close>; \<open>None\<close> when a \<^verbatim>\<open>find_next\<close> does not
  return.
\<close>

fun align_loop ::
  "nat \<Rightarrow> LineObj list \<Rightarrow> string \<Rightarrow> bool \<Rightarrow> (loop_exit \<times> LineObj list) option" where
  "align_loop 0 lines alignstr alignfirst = Some (Timeout, lines)"
| "align_loop (Suc timer) lines alignstr alignfirst =
     (case find_next_all lines alignstr alignfirst of
        None \<Rightarrow> None
      | Some (Inl e, lines1) \<Rightarrow> Some (Raised e, lines1)
      | Some (Inr align_positions, lines1) \<Rightarrow>
          (case py_max align_positions of
             Inl e \<Rightarrow> Some (Raised e, lines1)
           | Inr maxpos \<Rightarrow>
               if maxpos < 0 then Some (Break, lines1)
               else align_loop timer (map (pad_line maxpos) lines1) alignstr alignfirst))"

text \<open>
  The loop on freshly created trackers, and the texts it leaves (source lines 222 to
  224): delimiter alignment of a batch of lines.
\<close>

definition align_texts ::
  "nat \<Rightarrow> string list \<Rightarrow> string \<Rightarrow> bool \<Rightarrow> (loop_exit \<times> string list) option" where
  "align_texts timer texts alignstr alignfirst =
     map_option (\<lambda>(ex, lines). (ex, map text_of lines))
       (align_loop timer (map (LineObj_init 0 0) texts) alignstr alignfirst)"

section \<open>The host editor\<close>

text \<open>
  Modelled from the spec: the editor objects the plugin calls (\<^verbatim>\<open>sublime.Region\<close>,
  \<^verbatim>\<open>sublime.View\<close> and the window's status line) belong to the host, not to the
  repository. Section 6 of the spec lists what the core uses of them; here the buffer is
  a string, a point is an offset into it (clamped into the buffer), a line is a maximal
  stretch without a newline, and the status line is the list of messages sent to it,
  oldest first.
\<close>

type_synonym region = "int \<times> int"

definition region_begin :: "region \<Rightarrow> int" where
  "region_begin r = min (fst r) (snd r)"

definition region_end :: "region \<Rightarrow> int" where
  "region_end r = max (fst r) (snd r)"

definition region_size :: "region \<Rightarrow> int" where
  "region_size r = abs (snd r - fst r)"

record view =
  buffer :: string
  status :: "string list"
  tab_size :: int

definition newline :: char where
  "newline = CHR 0x0A"

definition tab :: char where
  "tab = CHR 0x09"

definition view_size :: "view \<Rightarrow> int" where
  "view_size v = py_len (buffer v)"

definition clamp_pt :: "view \<Rightarrow> int \<Rightarrow> nat" where
  "clamp_pt v pt = nat (min (max pt 0) (view_size v))"

definition view_substr :: "view \<Rightarrow> region \<Rightarrow> string" where
  "view_substr v r =
     take (clamp_pt v (region_end r) - clamp_pt v (region_begin r))
       (drop (clamp_pt v (region_begin r)) (buffer v))"

definition line_start :: "view \<Rightarrow> int \<Rightarrow> nat" where
  "line_start v pt =
     clamp_pt v pt -
     length (takeWhile (\<lambda>c. c \<noteq> newline) (rev (take (clamp_pt v pt) (buffer v))))"

definition view_line :: "view \<Rightarrow> int \<Rightarrow> region" where
  "view_line v pt =
     (int (line_start v pt),
      int (clamp_pt v pt +
           length (takeWhile (\<lambda>c. c \<noteq> newline) (drop (clamp_pt v pt) (buffer v)))))"

definition view_rowcol :: "view \<Rightarrow> int \<Rightarrow> int \<times> int" where
  "view_rowcol v pt =
     (int (count_list (take (clamp_pt v pt) (buffer v)) newline),
      int (clamp_pt v pt - line_start v pt))"

definition view_insert :: "view \<Rightarrow> int \<Rightarrow> string \<Rightarrow> view" where
  "view_insert v pt s =
     v\<lparr>buffer := take (clamp_pt v pt) (buffer v) @ s @ drop (clamp_pt v pt) (buffer v)\<rparr>"

definition view_replace :: "view \<Rightarrow> region \<Rightarrow> string \<Rightarrow> view" where
  "view_replace v r s =
     v\<lparr>buffer := take (clamp_pt v (region_begin r)) (buffer v) @ s @
                   drop (clamp_pt v (region_end r)) (buffer v)\<rparr>"

definition status_message :: "view \<Rightarrow> string \<Rightarrow> view" where
  "status_message v msg = v\<lparr>status := status v @ [msg]\<rparr>"

text \<open>A view on buffer \<open>b\<close> with nothing on the status line and a tab size of 4.\<close>

definition mkview :: "string \<Rightarrow> view" where
  "mkview b = \<lparr>buffer = b, status = [], tab_size = 4\<rparr>"

text \<open>\<^verbatim>\<open>sep.join(xs)\<close>.\<close>

fun py_join :: "string \<Rightarrow> string list \<Rightarrow> string" where
  "py_join sep [] = []"
| "py_join sep [s] = s"
| "py_join sep (s # t # ss) = s @ sep @ py_join sep (t # ss)"

section \<open>Alignment by the selected string\<close>

text \<open>How a command ends: it returns, or an exception leaves it.\<close>

datatype exit = Return | Raise error

text \<open>\<^verbatim>\<open>TabAlign.get_line\<close>.\<close>

definition get_line :: "view \<Rightarrow> int \<Rightarrow> LineObj option" where
  "get_line v loc =
     (if view_size v \<le> loc then None
      else let line = view_line v loc; text = view_substr v line
           in Some (LineObj_init (region_begin line) (region_end line) text))"

text \<open>
  The loop of source lines 191 to 198, entered with the first \<^verbatim>\<open>line\<close>; \<open>None\<close> is the
  \<^verbatim>\<open>return\<close> after the timer has ticked, otherwise the lines collected and the timer left.
\<close>

fun gather_lines ::
  "view \<Rightarrow> string \<Rightarrow> LineObj option \<Rightarrow> LineObj list \<Rightarrow> nat \<Rightarrow> (LineObj list \<times> nat) option" where
  "gather_lines v alignstr None lines timer = Some (lines, timer)"
| "gather_lines v alignstr (Some line) lines timer =
     (if \<not> py_in alignstr (text_of line) then Some (lines, timer)
      else (case timer of
              0 \<Rightarrow> None
            | Suc timer' \<Rightarrow>
                gather_lines v alignstr (get_line v (end_pt line + 1)) (lines @ [line]) timer'))"

text \<open>
  \<^verbatim>\<open>TabAlign.align_by_selected_str\<close>. The messages carry the source line of the call that
  sends them (\<^verbatim>\<open>get_linenumber()\<close>). After the message for an empty \<^verbatim>\<open>alignstr\<close> the source
  has no \<^verbatim>\<open>return\<close>: the function goes on. \<^verbatim>\<open>lines[0]\<close> raises \<^verbatim>\<open>IndexError\<close> when no line
  was collected.
\<close>

definition align_by_selected_str ::
  "view \<Rightarrow> region \<Rightarrow> nat \<Rightarrow> bool \<Rightarrow> (exit \<times> view) option" where
  "align_by_selected_str v cursor timer alignfirst =
     (let cursorline = view_line v (region_begin cursor) in
      if region_begin (view_line v (region_end cursor)) \<noteq> region_begin cursorline
      then Some (Return, status_message v ''Error: selection can't span more than one line'')
      else
        let alignstr = (if region_size cursor > 0 then view_substr v cursor
                        else view_substr v (region_begin cursor, region_begin cursor + 1));
            v1 = (if alignstr = [] then status_message v ''Programmer error: empty align string''
                  else v)
        in case gather_lines v1 alignstr (get_line v1 (region_begin cursorline)) [] timer of
             None \<Rightarrow> Some (Return, status_message v1 ''Programmer error: timeout on line 197'')
           | Some (lines, timer1) \<Rightarrow>
               if lines = [] then Some (Raise IndexError, v1)
               else
                 let origreg = (begin_pt (hd lines), end_pt (last lines)) in
                 (case align_loop timer1 lines alignstr alignfirst of
                    None \<Rightarrow> None
                  | Some (Timeout, lines') \<Rightarrow>
                      Some (Return, status_message v1 ''Programmer error: timeout on line 204'')
                  | Some (Raised e, lines') \<Rightarrow> Some (Raise e, v1)
                  | Some (Break, lines') \<Rightarrow>
                      Some (Return,
                            view_replace v1 origreg (py_join [newline] (map text_of lines')))))"

section \<open>Alignment by cursors\<close>

text \<open>The dictionary \<^verbatim>\<open>get_active_cursors\<close> builds for each cursor.\<close>

record rich_cursor =
  rc_reg :: region
  rc_loc :: int
  rc_line :: region
  rc_row :: int
  rc_col :: int
  rc_pos :: int

definition mk_rich_cursor :: "view \<Rightarrow> region \<Rightarrow> rich_cursor" where
  "mk_rich_cursor v reg =
     (let loc = region_begin reg;
          (row, col) = view_rowcol v loc;
          line = view_line v loc;
          linestr = take (nat col) (view_substr v line);
          pos = col + int (count_list linestr tab) * (tab_size v - 1)
      in \<lparr>rc_reg = reg, rc_loc = loc, rc_line = line, rc_row = row, rc_col = col, rc_pos = pos\<rparr>)"

text \<open>The first loop of \<^verbatim>\<open>get_active_cursors\<close>; \<open>None\<close> when the timer ticks in it.\<close>

fun rich_cursors_of :: "view \<Rightarrow> region list \<Rightarrow> nat \<Rightarrow> (rich_cursor list \<times> nat) option" where
  "rich_cursors_of v [] timer = Some ([], timer)"
| "rich_cursors_of v (reg # regs) timer =
     (case timer of
        0 \<Rightarrow> None
      | Suc timer' \<Rightarrow>
          map_option (\<lambda>(rcs, t). (mk_rich_cursor v reg # rcs, t)) (rich_cursors_of v regs timer'))"

text \<open>The second loop: the first cursor of each line, and the regions of the others.\<close>

fun split_first :: "int \<Rightarrow> rich_cursor list \<Rightarrow> rich_cursor list \<times> region list" where
  "split_first prevline [] = ([], [])"
| "split_first prevline (rc # rcs) =
     (let line = region_begin (rc_line rc);
          (first, other) = split_first line rcs
      in if line \<noteq> prevline then (rc # first, other) else (first, rc_reg rc # other))"

text \<open>
  What \<^verbatim>\<open>get_active_cursors\<close> returns: the triple, or the pair \<^verbatim>\<open>(None, None)\<close> of its
  timeout path. Python's \<^verbatim>\<open>sorted\<close> is stable, as \<open>sort_key\<close> is; \<^verbatim>\<open>reverse=True\<close> keeps
  equal keys in their order, as sorting by the negated key does.
\<close>

datatype active = Active "rich_cursor list" "region list" int | NoResult

definition get_active_cursors ::
  "view \<Rightarrow> region list \<Rightarrow> nat \<Rightarrow> (error + active) \<times> view \<times> nat" where
  "get_active_cursors v search_cursors timer =
     (case rich_cursors_of v search_cursors timer of
        None \<Rightarrow> (Inr NoResult, status_message v ''Programmer error: timeout on line 141'', 0)
      | Some (rich_cursors, timer1) \<Rightarrow>
          let sorted_cursors = sort_key rc_loc rich_cursors;
              (first0, other_cursors) = split_first (-1) sorted_cursors;
              first_richcursors = sort_key (\<lambda>x. - rc_loc x) first0;
              positions = map rc_pos first_richcursors
          in (case py_max positions of
                Inl e \<Rightarrow> (Inl e, v, timer1)
              | Inr maxpos \<Rightarrow> (Inr (Active first_richcursors other_cursors maxpos), v, timer1)))"

text \<open>The body of \<^verbatim>\<open>for selreg in active_cursors\<close> (source lines 115 to 126).\<close>

definition align_cursor ::
  "int \<Rightarrow> rich_cursor \<Rightarrow> view \<times> region list \<Rightarrow> view \<times> region list" where
  "align_cursor maxpos selreg st =
     (let (v, waiting_cursors) = st;
          loc = rc_loc selreg;
          pos = rc_pos selreg;
          insertion_len = maxpos - pos;
          v1 = (if insertion_len > 0 then view_insert v loc (spaces insertion_len) else v)
      in (v1, map (\<lambda>reg. if region_begin reg \<ge> loc
                           then (region_begin reg + insertion_len, region_begin reg + insertion_len)
                           else reg) waiting_cursors))"

lemma rich_cursors_of_timer: "rich_cursors_of v regs timer = Some (rcs, t) \<Longrightarrow> t \<le> timer"
proof (induction regs arbitrary: timer rcs t)
  case Nil
  then show ?case by simp
next
  case (Cons reg regs)
  then obtain timer' rcs' where
    t: "timer = Suc timer'" "rich_cursors_of v regs timer' = Some (rcs', t)"
    by (auto split: nat.splits)
  from Cons.IH [OF t(2)] t(1) show ?case by simp
qed

lemma get_active_cursors_timer: "get_active_cursors v regs timer = (r, v', t) \<Longrightarrow> t \<le> timer"
  by (auto simp: get_active_cursors_def Let_def split: option.splits prod.splits sum.splits
      dest: rich_cursors_of_timer)

text \<open>
  \<^verbatim>\<open>while len(waiting_cursors) > 0\<close> of \<^verbatim>\<open>align_by_cursors\<close>. Unpacking the pair
  \<^verbatim>\<open>(None, None)\<close> into three names raises \<^verbatim>\<open>ValueError\<close>. Every turn spends the timer, which
  is why the loop ends.
\<close>

function cursors_loop :: "view \<Rightarrow> region list \<Rightarrow> nat \<Rightarrow> exit \<times> view" where
  "cursors_loop v waiting_cursors timer =
     (if waiting_cursors = [] then (Return, v)
      else (case timer of
              0 \<Rightarrow> (Return, status_message v ''Programmer error: timeout on line 105'')
            | Suc timer1 \<Rightarrow>
                (case get_active_cursors v waiting_cursors timer1 of
                   (Inl e, v1, timer2) \<Rightarrow> (Raise e, v1)
                 | (Inr NoResult, v1, timer2) \<Rightarrow> (Raise ValueError, v1)
                 | (Inr (Active active_cursors other_cursors maxpos), v1, timer2) \<Rightarrow>
                     (case fold (align_cursor maxpos) active_cursors (v1, other_cursors) of
                        (v2, waiting2) \<Rightarrow> cursors_loop v2 waiting2 timer2))))"
  by pat_completeness auto
termination
  by (relation "measure (\<lambda>(v, w, t). t)")
    (auto dest!: get_active_cursors_timer [OF sym] simp: less_Suc_eq_le)

text \<open>\<^verbatim>\<open>TabAlign.align_by_cursors\<close>, on the cursors \<^verbatim>\<open>self.view.sel()\<close> holds.\<close>

definition align_by_cursors :: "view \<Rightarrow> region list \<Rightarrow> nat \<Rightarrow> exit \<times> view" where
  "align_by_cursors v cursors timer =
     (let waiting_cursors = map (\<lambda>c. (region_begin c, region_end c)) cursors in
      if \<exists>cursor \<in> set cursors. region_size cursor > 0
      then (Return, status_message v
              ''Error: you must have either a selection, a single cursor, or multiple cursors'')
      else cursors_loop v waiting_cursors timer)"

text \<open>\<^verbatim>\<open>TabAlign.my_run\<close> and the two commands.\<close>

definition my_run :: "view \<Rightarrow> region list \<Rightarrow> nat \<Rightarrow> bool \<Rightarrow> (exit \<times> view) option" where
  "my_run v cursors timer alignfirst =
     (if length cursors = 1 then align_by_selected_str v (hd cursors) timer alignfirst
      else Some (align_by_cursors v cursors timer))"



section \<open>Columns of a text\<close>

text \<open>
  \<open>columns alignfirst alignstr n s\<close>: scanning \<open>s\<close> from the left as \<^verbatim>\<open>find_next\<close> does (each
  search starts behind the occurrence found before), the delimiter is found exactly \<open>n\<close>
  times; and, unless \<open>alignfirst\<close>, no occurrence found is followed at once by another.
\<close>

fun columns :: "bool \<Rightarrow> string \<Rightarrow> nat \<Rightarrow> string \<Rightarrow> bool" where
  "columns alignfirst alignstr 0 s = (find_first alignstr s = None)"
| "columns alignfirst alignstr (Suc n) s =
     (case find_first alignstr s of
        None \<Rightarrow> False
      | Some i \<Rightarrow>
          (alignfirst \<or> \<not> occurs_at s alignstr (i + length alignstr)) \<and>
          columns alignfirst alignstr n (drop (i + length alignstr) s))"

text \<open>
  The same with the places named: the occurrences found lie at the offsets \<open>ms\<close>, each
  counted from where its search starts.
\<close>

fun columns_at :: "bool \<Rightarrow> string \<Rightarrow> nat list \<Rightarrow> string \<Rightarrow> bool" where
  "columns_at alignfirst alignstr [] s = (find_first alignstr s = None)"
| "columns_at alignfirst alignstr (m # ms) s =
     (find_first alignstr s = Some m \<and>
      (alignfirst \<or> \<not> occurs_at s alignstr (m + length alignstr)) \<and>
      columns_at alignfirst alignstr ms (drop (m + length alignstr) s))"

text \<open>The part of a tracker's text that \<^verbatim>\<open>find_next\<close> still has to search.\<close>

definition rest :: "LineObj \<Rightarrow> string" where
  "rest l = drop (nat (search_start l)) (text_of l)"

text \<open>
  A tracker after a pass that found the delimiter in it and aligned it at \<open>m\<close>: spaces in
  front of the occurrence found, both cursors moved with it.
\<close>

definition padded :: "string \<Rightarrow> int \<Rightarrow> LineObj \<Rightarrow> LineObj" where
  "padded alignstr m l =
     (let p = search_start l + int (the (find_first alignstr (rest l)))
      in l\<lparr>text_of := take (nat p) (text_of l) @ spaces (m - p) @ drop (nat p) (text_of l),
           search_start := m + py_len alignstr,
           last_find := m\<rparr>)"

text \<open>
  How the text \<open>l'\<close> ends with relates to a tracker \<open>l\<close> that stands at \<open>s\<close>: nothing
  before \<open>s\<close> has changed, behind \<open>s\<close> the columns lie at \<open>ms\<close>, and the first of them
  lies no further left than it did in \<open>l\<close>.
\<close>

definition aligned_from :: "bool \<Rightarrow> string \<Rightarrow> nat list \<Rightarrow> int \<Rightarrow> LineObj \<Rightarrow> LineObj \<Rightarrow> bool" where
  "aligned_from alignfirst alignstr ms s l l' =
     (take (nat s) (text_of l') = take (nat s) (text_of l) \<and>
      columns_at alignfirst alignstr ms (drop (nat s) (text_of l')) \<and>
      (\<forall>j. find_first alignstr (drop (nat s) (text_of l')) = Some j \<longrightarrow>
         (\<exists>j0\<le>j. find_first alignstr (rest l) = Some j0)))"

section \<open>Facts about searching\<close>

lemma find_first_Some_iff:
  "find_first sub s = Some i \<longleftrightarrow>
     i \<le> length s \<and> occurs_at s sub i \<and> (\<forall>j<i. \<not> occurs_at s sub j)"
proof (induction s arbitrary: i)
  case Nil
  then show ?case by (auto simp: occurs_at_def)
next
  case (Cons c cs)
  show ?case
  proof (cases "take (length sub) (c # cs) = sub")
    case True
    then show ?thesis by (auto simp: occurs_at_def)
  next
    case False
    show ?thesis
    proof (cases i)
      case 0
      with False show ?thesis by (simp add: occurs_at_def)
    next
      case (Suc i')
      have "(\<forall>j<Suc i'. \<not> occurs_at (c # cs) sub j) \<longleftrightarrow> (\<forall>j<i'. \<not> occurs_at cs sub j)"
        using False by (auto simp: occurs_at_def less_Suc_eq_0_disj)
      with False Suc Cons.IH [of i'] show ?thesis
        by (auto simp: occurs_at_def)
    qed
  qed
qed

lemma all_le_Suc_shift: "(\<forall>j\<le>Suc n. P j) \<longleftrightarrow> P 0 \<and> (\<forall>j\<le>n. P (Suc j))"
proof
  assume "\<forall>j\<le>Suc n. P j"
  then show "P 0 \<and> (\<forall>j\<le>n. P (Suc j))" by simp
next
  assume h: "P 0 \<and> (\<forall>j\<le>n. P (Suc j))"
  show "\<forall>j\<le>Suc n. P j"
  proof (intro allI impI)
    fix j assume "j \<le> Suc n"
    with h show "P j" by (cases j) auto
  qed
qed

lemma find_first_None_iff:
  "find_first sub s = None \<longleftrightarrow> (\<forall>j\<le>length s. \<not> occurs_at s sub j)"
proof (induction s)
  case Nil
  then show ?case by (auto simp: occurs_at_def)
next
  case (Cons c cs)
  have "(\<forall>j\<le>length (c # cs). \<not> occurs_at (c # cs) sub j) \<longleftrightarrow>
        \<not> occurs_at (c # cs) sub 0 \<and> (\<forall>j\<le>length cs. \<not> occurs_at cs sub j)"
    by (simp add: all_le_Suc_shift occurs_at_def)
  with Cons show ?case by (auto simp: occurs_at_def)
qed

lemma occurs_at_drop: "occurs_at (drop k s) sub i = occurs_at s sub (k + i)"
  by (simp add: occurs_at_def add.commute)

lemma occurs_at_bound: "occurs_at s sub i \<Longrightarrow> sub \<noteq> [] \<Longrightarrow> i + length sub \<le> length s"
proof -
  assume a: "occurs_at s sub i" and b: "sub \<noteq> []"
  from a have "length (take (length sub) (drop i s)) = length sub"
    by (simp add: occurs_at_def)
  then show ?thesis using b by (cases "i \<le> length s") auto
qed

lemma py_find_found_iff:
  assumes "0 \<le> st" "0 \<le> p"
  shows "py_find s sub st = p \<longleftrightarrow>
     st \<le> p \<and> p \<le> py_len s \<and> occurs_at s sub (nat p) \<and>
     (\<forall>q. st \<le> q \<and> q < p \<longrightarrow> \<not> occurs_at s sub (nat q))"
proof (cases "py_len s < st")
  case True
  with assms show ?thesis by (auto simp: py_find_def Let_def)
next
  case False
  define k where "k = nat st"
  have st: "st = int k" using assms by (simp add: k_def)
  have kl: "k \<le> length s" using False by (simp add: st py_len_def)
  show ?thesis
  proof (cases "find_first sub (drop k s)")
    case None
    then have no: "\<And>j. j \<le> length s - k \<Longrightarrow> \<not> occurs_at s sub (k + j)"
      by (simp add: find_first_None_iff occurs_at_drop)
    have "\<not> (st \<le> p \<and> p \<le> py_len s \<and> occurs_at s sub (nat p))"
    proof
      assume h: "st \<le> p \<and> p \<le> py_len s \<and> occurs_at s sub (nat p)"
      then have "nat p - k \<le> length s - k" "k + (nat p - k) = nat p"
        by (auto simp: st py_len_def)
      with no [of "nat p - k"] h show False by simp
    qed
    moreover have "py_find s sub st = -1"
      using None False assms by (simp add: py_find_def Let_def k_def)
    ultimately show ?thesis using assms by auto
  next
    case (Some i)
    then have i: "i \<le> length s - k" "occurs_at s sub (k + i)" "\<And>j. j < i \<Longrightarrow> \<not> occurs_at s sub (k + j)"
      by (simp_all add: find_first_Some_iff occurs_at_drop)
    have pf: "py_find s sub st = int (k + i)"
      using Some False assms by (simp add: py_find_def Let_def k_def)
    show ?thesis
    proof
      assume "py_find s sub st = p"
      with pf have p: "p = int (k + i)" by simp
      have "\<And>q. st \<le> q \<Longrightarrow> q < p \<Longrightarrow> \<not> occurs_at s sub (nat q)"
      proof -
        fix q assume "st \<le> q" "q < p"
        then have "nat q - k < i" "k + (nat q - k) = nat q" by (auto simp: st p)
        with i(3) [of "nat q - k"] show "\<not> occurs_at s sub (nat q)" by simp
      qed
      with i kl show "st \<le> p \<and> p \<le> py_len s \<and> occurs_at s sub (nat p) \<and>
        (\<forall>q. st \<le> q \<and> q < p \<longrightarrow> \<not> occurs_at s sub (nat q))"
        by (auto simp: p st py_len_def nat_int_add)
    next
      assume h: "st \<le> p \<and> p \<le> py_len s \<and> occurs_at s sub (nat p) \<and>
        (\<forall>q. st \<le> q \<and> q < p \<longrightarrow> \<not> occurs_at s sub (nat q))"
      have "\<not> p < int (k + i)"
      proof
        assume lt: "p < int (k + i)"
        with h have "nat p - k < i" "k + (nat p - k) = nat p" by (auto simp: st)
        with i(3) [of "nat p - k"] h show False by simp
      qed
      moreover have "\<not> int (k + i) < p"
      proof
        assume "int (k + i) < p"
        with h have "\<not> occurs_at s sub (nat (int (k + i)))" by (simp add: st)
        with i(2) show False by (simp add: nat_int_add)
      qed
      ultimately show "py_find s sub st = p" using pf by simp
    qed
  qed
qed

lemma py_find_none_iff:
  assumes "0 \<le> st"
  shows "py_find s sub st = -1 \<longleftrightarrow>
     (\<forall>q. st \<le> q \<and> q \<le> py_len s \<longrightarrow> \<not> occurs_at s sub (nat q))"
proof (cases "py_len s < st")
  case True
  with assms show ?thesis by (auto simp: py_find_def Let_def)
next
  case False
  define k where "k = nat st"
  have st: "st = int k" using assms by (simp add: k_def)
  have kl: "k \<le> length s" using False by (simp add: st py_len_def)
  show ?thesis
  proof (cases "find_first sub (drop k s)")
    case None
    then have no: "\<And>j. j \<le> length s - k \<Longrightarrow> \<not> occurs_at s sub (k + j)"
      by (simp add: find_first_None_iff occurs_at_drop)
    have "\<And>q. st \<le> q \<Longrightarrow> q \<le> py_len s \<Longrightarrow> \<not> occurs_at s sub (nat q)"
    proof -
      fix q assume "st \<le> q" "q \<le> py_len s"
      then have "nat q - k \<le> length s - k" "k + (nat q - k) = nat q"
        by (auto simp: st py_len_def)
      with no [of "nat q - k"] show "\<not> occurs_at s sub (nat q)" by simp
    qed
    moreover have "py_find s sub st = -1"
      using None False assms by (simp add: py_find_def Let_def k_def)
    ultimately show ?thesis by simp
  next
    case (Some i)
    then have i: "i \<le> length s - k" "occurs_at s sub (k + i)"
      by (simp_all add: find_first_Some_iff occurs_at_drop)
    have pf: "py_find s sub st = int (k + i)"
      using Some False assms by (simp add: py_find_def Let_def k_def)
    have "st \<le> int (k + i) \<and> int (k + i) \<le> py_len s \<and> occurs_at s sub (nat (int (k + i)))"
      using i kl by (simp add: st py_len_def nat_int_add)
    then have "\<not> (\<forall>q. st \<le> q \<and> q \<le> py_len s \<longrightarrow> \<not> occurs_at s sub (nat q))"
      by blast
    with pf show ?thesis by simp
  qed
qed

lemma py_find_range: "py_find s sub st = -1 \<or> (0 \<le> py_find s sub st \<and> py_find s sub st \<le> py_len s)"
proof -
  define k where "k = (if st < 0 then max (st + py_len s) 0 else st)"
  have k0: "0 \<le> k \<or> py_len s < k" by (auto simp: k_def)
  show ?thesis
  proof (cases "py_len s < k")
    case True
    then show ?thesis by (simp add: py_find_def Let_def k_def)
  next
    case False
    show ?thesis
    proof (cases "find_first sub (drop (nat k) s)")
      case None
      with False show ?thesis by (simp add: py_find_def Let_def k_def)
    next
      case (Some i)
      then have "i \<le> length s - nat k" by (simp add: find_first_Some_iff)
      moreover have "py_find s sub st = k + int i"
        using Some False by (simp add: py_find_def Let_def k_def)
      ultimately show ?thesis using False k0 by (auto simp: py_len_def)
    qed
  qed
qed

lemma py_find_self_iff:
  assumes "0 \<le> p" "sub \<noteq> []"
  shows "py_find s sub p = p \<longleftrightarrow> occurs_at s sub (nat p)"
proof -
  have "occurs_at s sub (nat p) \<Longrightarrow> p \<le> py_len s"
    using occurs_at_bound [of s sub "nat p"] assms by (simp add: py_len_def)
  then show ?thesis using py_find_found_iff [of p p s sub] assms by auto
qed

lemma last_in_run_chain:
  assumes "alignstr \<noteq> []"
  shows "0 \<le> pos \<Longrightarrow> occurs_at txt alignstr (nat pos) \<Longrightarrow>
    \<exists>k. last_in_run txt alignstr pos = Some (pos + int k * py_len alignstr) \<and>
        (\<forall>j\<le>k. occurs_at txt alignstr (nat (pos + int j * py_len alignstr))) \<and>
        \<not> occurs_at txt alignstr (nat (pos + int (Suc k) * py_len alignstr))"
proof (induction "nat (py_len txt - pos)" arbitrary: pos rule: less_induct)
  case less
  define asl where "asl = py_len alignstr"
  have asl: "0 < asl" using assms by (simp add: asl_def py_len_def)
  have lt: "pos < py_len txt"
  proof -
    have "0 < length alignstr" using assms by simp
    with occurs_at_bound [OF less.prems(2) assms] less.prems(1)
    show ?thesis unfolding py_len_def by linarith
  qed
  show ?case
  proof (cases "py_find txt alignstr (pos + asl) = pos + asl")
    case True
    then have occ: "occurs_at txt alignstr (nat (pos + asl))"
      using py_find_self_iff [of "pos + asl" alignstr "txt"] asl less.prems(1) assms by simp
    have "nat (py_len txt - (pos + asl)) < nat (py_len txt - pos)"
      using lt asl by simp
    from less.hyps [OF this _ occ] less.prems(1) asl
    obtain k where k: "last_in_run txt alignstr (pos + asl) = Some (pos + asl + int k * asl)"
        "\<forall>j\<le>k. occurs_at txt alignstr (nat (pos + asl + int j * asl))"
        "\<not> occurs_at txt alignstr (nat (pos + asl + int (Suc k) * asl))"
      by (auto simp: asl_def)
    have 1: "last_in_run txt alignstr pos = Some (pos + int (Suc k) * asl)"
      using True lt k(1)
      by (subst last_in_run.simps) (simp add: asl_def algebra_simps)
    have 2: "\<forall>j\<le>Suc k. occurs_at txt alignstr (nat (pos + int j * asl))"
    proof (intro allI impI)
      fix j assume "j \<le> Suc k"
      show "occurs_at txt alignstr (nat (pos + int j * asl))"
      proof (cases j)
        case 0
        with less.prems(2) show ?thesis by simp
      next
        case (Suc j')
        with \<open>j \<le> Suc k\<close> k(2) have "occurs_at txt alignstr (nat (pos + asl + int j' * asl))"
          by simp
        then show ?thesis by (simp add: Suc algebra_simps)
      qed
    qed
    have 3: "\<not> occurs_at txt alignstr (nat (pos + int (Suc (Suc k)) * asl))"
      using k(3) by (simp add: algebra_simps)
    from 1 2 3 show ?thesis unfolding asl_def by blast
  next
    case False
    then have "\<not> occurs_at txt alignstr (nat (pos + asl))"
      using py_find_self_iff [of "pos + asl" alignstr "txt"] asl less.prems(1) assms by simp
    moreover have "last_in_run txt alignstr pos = Some pos"
      using False by (subst last_in_run.simps) (simp add: asl_def)
    ultimately have "last_in_run txt alignstr pos = Some (pos + int 0 * py_len alignstr) \<and>
        (\<forall>j\<le>0. occurs_at txt alignstr (nat (pos + int j * py_len alignstr))) \<and>
        \<not> occurs_at txt alignstr (nat (pos + int (Suc 0) * py_len alignstr))"
      using less.prems(2) by (simp add: asl_def)
    then show ?thesis by blast
  qed
qed

lemma last_in_run_empty_diverges:
  assumes "last_in_run txt alignstr pos = Some r"
  shows "\<not> (alignstr = [] \<and> 0 \<le> pos \<and> pos < py_len txt)"
proof (rule last_in_run.raw_induct
    [where P = "\<lambda>txt alignstr pos r. \<not> (alignstr = [] \<and> 0 \<le> pos \<and> pos < py_len txt)", OF _ assms])
  fix f t d p r
  assume IH: "\<And>t d p r. f t d p = Some r \<Longrightarrow>
      \<not> (d = [] \<and> 0 \<le> p \<and> p < py_len t)"
    and eq: "(if p < py_len t \<and> py_find t d (p + py_len d) = p + py_len d
       then f t d (p + py_len d) else Some p) = Some r"
  show "\<not> (d = [] \<and> 0 \<le> p \<and> p < py_len t)"
  proof
    assume h: "d = [] \<and> 0 \<le> p \<and> p < py_len t"
    then have "py_find t d (p + py_len d) = p + py_len d"
      using py_find_found_iff [of p p t "[]"] by (simp add: py_len_def occurs_at_def)
    with eq h have "f t d p = Some r" by (simp add: py_len_def)
    from IH [OF this] h show False by simp
  qed
qed

section \<open>Facts about the tracker\<close>

lemma py_find_occurs:
  assumes "py_find s sub st = p" "p \<noteq> -1"
  shows "0 \<le> p \<and> p \<le> py_len s \<and> occurs_at s sub (nat p)"
proof -
  define k where "k = (if st < 0 then max (st + py_len s) 0 else st)"
  have nlt: "\<not> py_len s < k" using assms by (auto simp: py_find_def Let_def k_def py_len_def)
  have k0: "0 \<le> k" using nlt by (auto simp: k_def py_len_def)
  from assms nlt obtain i where i: "find_first sub (drop (nat k) s) = Some i" "p = k + int i"
    by (auto simp: py_find_def Let_def k_def split: option.splits)
  from i(1) have "i \<le> length s - nat k" "occurs_at s sub (nat k + i)"
    by (simp_all add: find_first_Some_iff occurs_at_drop)
  moreover have "nat p = nat k + i" using k0 i(2) by (simp add: nat_add_distrib)
  ultimately show ?thesis using k0 nlt i(2) by (auto simp: py_len_def)
qed

lemma find_next_not_found:
  assumes "py_find (text_of self) alignstr (search_start self) = -1"
  shows "find_next self alignstr alignfirst =
     Some (Inr (-1), self\<lparr>search_start := py_len (text_of self)\<rparr>)"
  using assms by (simp add: find_next_def)

lemma find_next_first:
  assumes "py_find (text_of self) alignstr (search_start self) = p" "p \<noteq> -1" "p < py_len (text_of self)"
  shows "find_next self alignstr True =
     Some (Inr p, self\<lparr>search_start := p + py_len alignstr, last_find := p\<rparr>)"
  using assms by (simp add: find_next_def Let_def)

lemma find_next_skips_run:
  assumes ne: "alignstr \<noteq> []"
    and p: "py_find (text_of self) alignstr (search_start self) = p"
    and found: "p \<noteq> -1"
  shows "\<exists>k. find_next self alignstr False =
           Some (Inr (p + int k * py_len alignstr),
                 self\<lparr>search_start := p + int k * py_len alignstr + py_len alignstr,
                      last_find := p + int k * py_len alignstr\<rparr>) \<and>
         (\<forall>j\<le>k. occurs_at (text_of self) alignstr (nat (p + int j * py_len alignstr))) \<and>
         \<not> occurs_at (text_of self) alignstr (nat (p + int (Suc k) * py_len alignstr))"
proof -
  from py_find_occurs [OF p found]
  have p0: "0 \<le> p" and occ: "occurs_at (text_of self) alignstr (nat p)" by simp_all
  have "0 < length alignstr" using ne by simp
  with occurs_at_bound [OF occ ne] p0 have lt: "p < py_len (text_of self)"
    unfolding py_len_def by linarith
  from last_in_run_chain [OF ne p0 occ] obtain k where
    k: "last_in_run (text_of self) alignstr p = Some (p + int k * py_len alignstr)"
       "\<forall>j\<le>k. occurs_at (text_of self) alignstr (nat (p + int j * py_len alignstr))"
       "\<not> occurs_at (text_of self) alignstr (nat (p + int (Suc k) * py_len alignstr))"
    by blast
  have "find_next self alignstr False =
           Some (Inr (p + int k * py_len alignstr),
                 self\<lparr>search_start := p + int k * py_len alignstr + py_len alignstr,
                      last_find := p + int k * py_len alignstr\<rparr>)"
    using p found lt k(1) by (simp add: find_next_def Let_def)
  with k(2,3) show ?thesis by blast
qed

lemma find_next_returns:
  assumes "alignstr \<noteq> [] \<or> alignfirst"
  shows "\<exists>r self'. find_next self alignstr alignfirst = Some (r, self')"
proof (cases "py_find (text_of self) alignstr (search_start self) = -1 \<or>
              py_find (text_of self) alignstr (search_start self) \<ge> py_len (text_of self)")
  case True
  then show ?thesis by (auto simp: find_next_def Let_def)
next
  case nf: False
  show ?thesis
  proof (cases alignfirst)
    case True
    with nf show ?thesis by (simp add: find_next_def Let_def)
  next
    case False
    with assms have ne: "alignstr \<noteq> []" by simp
    from nf have "py_find (text_of self) alignstr (search_start self) \<noteq> -1" by simp
    from find_next_skips_run [OF ne refl this] obtain r self' where
      "find_next self alignstr False = Some (r, self')" by blast
    with False show ?thesis by auto
  qed
qed

lemma insert_at_eq:
  "insert_at self pos val =
     self\<lparr>search_start := (if clamp_pos self pos \<le> search_start self
                            then search_start self + py_len val else search_start self),
          last_find := (if clamp_pos self pos \<le> last_find self
                        then last_find self + py_len val else last_find self),
          text_of := take (nat (clamp_pos self pos)) (text_of self) @ val @
                     drop (nat (clamp_pos self pos)) (text_of self)\<rparr>"
proof -
  define c where "c = clamp_pos self pos"
  have c: "min (max pos 0) (py_len (text_of self)) = c" by (simp add: c_def clamp_pos_def)
  have range: "0 \<le> c" "c \<le> py_len (text_of self)"
    by (simp_all add: c_def clamp_pos_def py_len_def)
  show ?thesis
  proof (cases "c = 0")
    case True
    then show ?thesis unfolding insert_at_def Let_def c c_def [symmetric] by simp
  next
    case nz: False
    show ?thesis
    proof (cases "c = py_len (text_of self)")
      case True
      then show ?thesis unfolding insert_at_def Let_def c c_def [symmetric]
        by (simp add: py_len_def)
    next
      case False
      with nz show ?thesis unfolding insert_at_def Let_def c c_def [symmetric] by simp
    qed
  qed
qed

lemma insert_at_inv:
  assumes "tracker_inv self"
  shows "tracker_inv (insert_at self pos val)"
proof -
  define c where "c = clamp_pos self pos"
  have range: "0 \<le> c" "c \<le> py_len (text_of self)"
    by (simp_all add: c_def clamp_pos_def py_len_def)
  have len: "py_len (take (nat c) (text_of self) @ val @ drop (nat c) (text_of self)) =
     py_len (text_of self) + py_len val"
    using range by (simp add: py_len_def)
  have v: "0 \<le> py_len val" by (simp add: py_len_def)
  show ?thesis
    using assms v unfolding insert_at_eq tracker_inv_def c_def [symmetric]
    by (simp add: len)
qed

lemma find_next_inv:
  assumes inv: "tracker_inv self" and fn: "find_next self alignstr alignfirst = Some (r, self')"
  shows "tracker_inv self'"
proof (cases "py_find (text_of self) alignstr (search_start self) = -1 \<or>
              py_find (text_of self) alignstr (search_start self) \<ge> py_len (text_of self)")
  case True
  with fn have "self' = self\<lparr>search_start := py_len (text_of self)\<rparr>"
    by (auto simp: find_next_def Let_def)
  with inv show ?thesis by (simp add: tracker_inv_def py_len_def)
next
  case False
  define p where "p = py_find (text_of self) alignstr (search_start self)"
  have pf: "p \<noteq> -1" "p < py_len (text_of self)" using False by (simp_all add: p_def)
  from py_find_occurs [OF p_def [symmetric] pf(1)]
  have p0: "0 \<le> p" and occ: "occurs_at (text_of self) alignstr (nat p)" by simp_all
  show ?thesis
  proof (cases "alignstr = []")
    case True
    show ?thesis
    proof (cases alignfirst)
      case True
      with fn False \<open>alignstr = []\<close> have "self' = self\<lparr>search_start := p, last_find := p\<rparr>"
        by (auto simp: find_next_def Let_def p_def py_len_def)
      with p0 pf show ?thesis by (simp add: tracker_inv_def)
    next
      case af: False
      have "last_in_run (text_of self) alignstr p = None"
        using last_in_run_empty_diverges [of "text_of self" alignstr p] True p0 pf
        by (cases "last_in_run (text_of self) alignstr p") auto
      with fn False af have False by (simp add: find_next_def Let_def p_def)
      then show ?thesis ..
    qed
  next
    case ne: False
    have bound: "\<And>i. occurs_at (text_of self) alignstr i \<Longrightarrow> int i + py_len alignstr \<le> py_len (text_of self)"
      using occurs_at_bound [OF _ ne] by (fastforce simp: py_len_def)
    have asl: "0 < py_len alignstr" using ne by (simp add: py_len_def)
    show ?thesis
    proof (cases alignfirst)
      case True
      with fn False have "self' = self\<lparr>search_start := p + py_len alignstr, last_find := p\<rparr>"
        by (auto simp: find_next_def Let_def p_def)
      with p0 pf bound [OF occ] asl show ?thesis by (simp add: tracker_inv_def)
    next
      case af: False
      from find_next_skips_run [OF ne p_def [symmetric] pf(1)] fn af
      obtain k where k: "self' = self\<lparr>search_start := p + int k * py_len alignstr + py_len alignstr,
                      last_find := p + int k * py_len alignstr\<rparr>"
        "occurs_at (text_of self) alignstr (nat (p + int k * py_len alignstr))"
        by auto
      have "0 \<le> p + int k * py_len alignstr" using p0 asl by simp
      with bound [OF k(2)] asl show ?thesis by (simp add: k(1) tracker_inv_def)
    qed
  qed
qed

lemma last_in_run_empty_None:
  assumes "0 \<le> pos" "pos < py_len t"
  shows "last_in_run t [] pos = None"
  using last_in_run_empty_diverges [of t "[]" pos] assms
  by (cases "last_in_run t [] pos") auto

section \<open>Facts about the host's lines\<close>

lemma takeWhile_rev_append_length:
  "length (takeWhile P (rev ys @ rev xs)) =
     (if \<forall>y\<in>set ys. P y then length ys + length (takeWhile P (rev xs))
      else length (takeWhile P (rev ys)))"
  by (auto simp: takeWhile_append)

lemma takeWhile_length_less: "\<not> (\<forall>y\<in>set ys. P y) \<Longrightarrow> length (takeWhile P ys) < length ys"
proof -
  assume n: "\<not> (\<forall>y\<in>set ys. P y)"
  have "length (takeWhile P ys) \<noteq> length ys"
  proof
    assume "length (takeWhile P ys) = length ys"
    with takeWhile_eq_take [of P ys] have "takeWhile P ys = ys" by simp
    with n show False by (simp add: takeWhile_eq_all_conv)
  qed
  with length_takeWhile_le [of P ys] show ?thesis by simp
qed

lemma selection_spans_lines_iff:
  "region_begin (view_line v (region_end cursor)) \<noteq> region_begin (view_line v (region_begin cursor))
     \<longleftrightarrow> newline \<in> set (view_substr v cursor)"
proof -
  define a where "a = clamp_pt v (region_begin cursor)"
  define b where "b = clamp_pt v (region_end cursor)"
  define X where "X = take a (buffer v)"
  define Y where "Y = take (b - a) (drop a (buffer v))"
  define P where "P = (\<lambda>c. c \<noteq> newline)"
  have ab: "a \<le> b" "b \<le> length (buffer v)"
    by (auto simp: a_def b_def clamp_pt_def region_begin_def region_end_def view_size_def py_len_def)
  have X: "length X = a" using ab by (simp add: X_def)
  have Y: "length Y = b - a" using ab by (simp add: Y_def)
  have tb: "take b (buffer v) = X @ Y"
    using ab take_add [of a "b - a" "buffer v"] by (simp add: X_def Y_def)
  have ca: "clamp_pt v (int a) = a" "clamp_pt v (int b) = b"
    using ab by (simp_all add: clamp_pt_def view_size_def py_len_def)
  have la: "line_start v (region_begin cursor) = a - length (takeWhile P (rev X))"
    by (simp add: line_start_def a_def X_def P_def)
  have lb: "line_start v (region_end cursor) = b - length (takeWhile P (rev Y @ rev X))"
    by (simp add: line_start_def b_def [symmetric] tb P_def)
  have twX: "length (takeWhile P (rev X)) \<le> a"
    using length_takeWhile_le [of P "rev X"] X by simp
  have rb: "\<And>pt. region_begin (view_line v pt) = int (line_start v pt)"
  proof -
    fix pt
    have "line_start v pt \<le> clamp_pt v pt" by (simp add: line_start_def)
    then show "region_begin (view_line v pt) = int (line_start v pt)"
      by (simp add: view_line_def region_begin_def)
  qed
  show ?thesis
  proof (cases "\<forall>y\<in>set Y. P y")
    case True
    then have "length (takeWhile P (rev Y @ rev X)) = length Y + length (takeWhile P (rev X))"
      by (simp add: takeWhile_rev_append_length)
    with la lb Y ab twX have "line_start v (region_end cursor) = line_start v (region_begin cursor)"
      by simp
    moreover have "newline \<notin> set (view_substr v cursor)"
      using True by (auto simp: view_substr_def a_def [symmetric] b_def [symmetric] Y_def [symmetric] P_def)
    ultimately show ?thesis by (simp add: rb)
  next
    case False
    then have "length (takeWhile P (rev Y @ rev X)) = length (takeWhile P (rev Y))"
      using takeWhile_rev_append_length [of P Y X] by auto
    moreover have "length (takeWhile P (rev Y)) < length Y"
      using False takeWhile_length_less [of "rev Y" P] by simp
    ultimately have "line_start v (region_end cursor) > a" using lb Y ab by simp
    moreover have "line_start v (region_begin cursor) \<le> a" using la by simp
    moreover have "newline \<in> set (view_substr v cursor)"
      using False by (auto simp: view_substr_def a_def [symmetric] b_def [symmetric] Y_def [symmetric] P_def)
    ultimately show ?thesis by (simp add: rb)
  qed
qed

section \<open>Facts about a pass over aligned columns\<close>

lemma occurs_at_prefix_cong:
  assumes "j + length sub \<le> k" "take k s = take k s'"
  shows "occurs_at s sub j = occurs_at s' sub j"
proof -
  have "take (j + length sub) (take k s) = take (j + length sub) (take k s')"
    using assms(2) by simp
  then have "take (j + length sub) s = take (j + length sub) s'"
    using assms(1) by (simp add: min_def)
  then have "drop j (take (j + length sub) s) = drop j (take (j + length sub) s')"
    by simp
  then have "take (length sub) (drop j s) = take (length sub) (drop j s')"
    by (simp add: take_drop add.commute)
  then show ?thesis by (simp add: occurs_at_def)
qed

lemma find_first_prefix:
  assumes ne: "sub \<noteq> []"
    and f: "find_first sub s = Some i"
    and eq: "take (i + length sub) s' = take (i + length sub) s"
  shows "find_first sub s' = Some i"
proof -
  from f have i: "occurs_at s sub i" "\<And>j. j < i \<Longrightarrow> \<not> occurs_at s sub j"
    by (simp_all add: find_first_Some_iff)
  have o: "occurs_at s' sub i"
    using occurs_at_prefix_cong [of i sub "i + length sub" s' s] eq i(1) by simp
  have n: "\<And>j. j < i \<Longrightarrow> \<not> occurs_at s' sub j"
    using occurs_at_prefix_cong [of _ sub "i + length sub" s' s] eq i(2) by simp
  have "i \<le> length s'" using occurs_at_bound [OF o ne] by simp
  with o n show ?thesis by (simp add: find_first_Some_iff)
qed

lemma occurs_at_nth:
  assumes "occurs_at s sub i" "sub \<noteq> []" "j < length sub"
  shows "s ! (i + j) = sub ! j"
proof -
  from occurs_at_bound [OF assms(1,2)] assms(3) have "i + j < length s" by simp
  have "sub ! j = take (length sub) (drop i s) ! j" using assms(1) by (simp add: occurs_at_def)
  also have "\<dots> = s ! (i + j)" using assms(3) \<open>i + j < length s\<close> by simp
  finally show ?thesis by simp
qed

lemma find_first_pad:
  assumes ne: "sub \<noteq> []"
    and sp: "CHR '' '' \<notin> set sub"
    and f: "find_first sub s = Some i"
  shows "find_first sub (take i s @ spaces (int k) @ drop i s) = Some (i + k)"
proof -
  define s' where "s' = take i s @ spaces (int k) @ drop i s"
  from f have i: "i \<le> length s" "occurs_at s sub i" "\<And>j. j < i \<Longrightarrow> \<not> occurs_at s sub j"
    by (simp_all add: find_first_Some_iff)
  have len: "length s' = length s + k" using i(1) by (simp add: s'_def spaces_def)
  have d: "drop (i + k) s' = drop i s" using i(1) by (simp add: s'_def spaces_def)
  then have o: "occurs_at s' sub (i + k)" using i(2) by (simp add: occurs_at_def)
  have n: "\<not> occurs_at s' sub j" if j: "j < i + k" for j
  proof
    assume oc: "occurs_at s' sub j"
    show False
    proof (cases "j + length sub \<le> i")
      case True
      have "take i s' = take i s" using i(1) by (simp add: s'_def)
      with occurs_at_prefix_cong [OF True, of s' s] oc have "occurs_at s sub j" by simp
      moreover have "j < i" using True ne by (cases sub) auto
      ultimately show False using i(3) by simp
    next
      case False
      have l: "0 < length sub" using ne by simp
      have k: "0 < k"
      proof (rule ccontr)
        assume "\<not> 0 < k"
        then have "s' = s" "j < i" using j by (simp_all add: s'_def spaces_def)
        with oc i(3) show False by simp
      qed
      define q where "q = max j i"
      have q: "j \<le> q" "q - j < length sub" "i \<le> q" "q < i + k"
        unfolding q_def using False j l k by arith+
      have "q - i < k" using q(3,4) by arith
      then have "s' ! q = CHR '' ''"
        using q(3) i(1) by (simp add: s'_def spaces_def nth_append)
      moreover have "s' ! (j + (q - j)) = sub ! (q - j)"
        using occurs_at_nth [OF oc ne q(2)] .
      ultimately have "sub ! (q - j) = CHR '' ''" using q(1) by simp
      with q(2) sp show False by (metis nth_mem)
    qed
  qed
  have "i + k \<le> length s'" using len i(1) by simp
  with o n show ?thesis unfolding s'_def [symmetric] by (simp add: find_first_Some_iff)
qed

lemma py_find_split:
  assumes "0 \<le> st" "st \<le> py_len s"
  shows "py_find s sub st =
     (case find_first sub (drop (nat st) s) of None \<Rightarrow> -1 | Some i \<Rightarrow> st + int i)"
  using assms by (simp add: py_find_def Let_def)

lemma find_next_none:
  assumes "0 \<le> search_start l" "search_start l \<le> py_len (text_of l)"
    and "find_first alignstr (rest l) = None"
  shows "find_next l alignstr alignfirst =
     Some (Inr (-1), l\<lparr>search_start := py_len (text_of l)\<rparr>)"
proof -
  have "py_find (text_of l) alignstr (search_start l) = -1"
    using assms by (simp add: py_find_split rest_def)
  then show ?thesis by (rule find_next_not_found)
qed

lemma find_next_single:
  assumes ne: "alignstr \<noteq> []"
    and ss: "0 \<le> search_start l" "search_start l \<le> py_len (text_of l)"
    and f: "find_first alignstr (rest l) = Some i"
    and single: "alignfirst \<or> \<not> occurs_at (rest l) alignstr (i + length alignstr)"
  shows "find_next l alignstr alignfirst =
     Some (Inr (search_start l + int i),
           l\<lparr>search_start := search_start l + int i + py_len alignstr,
             last_find := search_start l + int i\<rparr>)"
proof -
  define p where "p = search_start l + int i"
  have pf: "py_find (text_of l) alignstr (search_start l) = p"
    using ss f by (simp add: py_find_split rest_def p_def)
  have p1: "p \<noteq> -1" using ss by (simp add: p_def)
  from py_find_occurs [OF pf p1] have occ: "occurs_at (text_of l) alignstr (nat p)" by simp
  have "0 < length alignstr" using ne by simp
  with occurs_at_bound [OF occ ne] ss have lt: "p < py_len (text_of l)"
    unfolding py_len_def p_def by linarith
  show ?thesis
  proof (cases alignfirst)
    case True
    with find_next_first [OF pf p1 lt] show ?thesis by (simp add: p_def)
  next
    case False
    with single have ns: "\<not> occurs_at (rest l) alignstr (i + length alignstr)" by simp
    have np: "nat (p + py_len alignstr) = nat (search_start l) + (i + length alignstr)"
      using ss by (simp add: p_def py_len_def nat_add_distrib)
    from ns have ns': "\<not> occurs_at (text_of l) alignstr (nat (p + py_len alignstr))"
      by (simp add: rest_def occurs_at_drop np)
    from find_next_skips_run [OF ne pf p1] obtain k where
      k: "find_next l alignstr False =
           Some (Inr (p + int k * py_len alignstr),
                 l\<lparr>search_start := p + int k * py_len alignstr + py_len alignstr,
                      last_find := p + int k * py_len alignstr\<rparr>)"
         "\<forall>j\<le>k. occurs_at (text_of l) alignstr (nat (p + int j * py_len alignstr))"
      by blast
    have "k = 0"
    proof (rule ccontr)
      assume "k \<noteq> 0"
      then have "1 \<le> k" by simp
      with k(2) have "occurs_at (text_of l) alignstr (nat (p + int 1 * py_len alignstr))"
        by blast
      with ns' show False by simp
    qed
    with k(1) False show ?thesis by (simp add: p_def)
  qed
qed

lemma pad_line_eq:
  assumes "last_find l = p" "0 \<le> p" "p \<le> m" "p \<le> py_len (text_of l)" "p \<le> search_start l"
  shows "pad_line m l =
     l\<lparr>text_of := take (nat p) (text_of l) @ spaces (m - p) @ drop (nat p) (text_of l),
       search_start := search_start l + (m - p),
       last_find := m\<rparr>"
proof (cases "p < m")
  case True
  have c: "clamp_pos l p = p" using assms by (simp add: clamp_pos_def)
  have s: "py_len (spaces (m - p)) = m - p" using True by (simp add: py_len_def spaces_def)
  from True assms show ?thesis
    by (simp add: pad_line_def Let_def insert_at_eq c s)
next
  case False
  with assms have "m = p" by simp
  with assms show ?thesis by (simp add: pad_line_def Let_def spaces_def)
qed

lemma find_next_all_map:
  assumes "\<And>l. l \<in> set ls \<Longrightarrow> find_next l alignstr alignfirst = Some (Inr (g l), h l)"
  shows "find_next_all ls alignstr alignfirst = Some (Inr (map g ls), map h ls)"
  using assms by (induction ls) simp_all

lemma py_max_Max:
  assumes "xs \<noteq> []"
  shows "py_max xs = Inr (Max (set xs))"
proof (cases xs)
  case Nil
  with assms show ?thesis by simp
next
  case (Cons a list)
  have "Max (set (a # list)) = fold max list a" by (rule Max.set_eq_fold)
  then show ?thesis using Cons by simp
qed

lemma find_first_Some_bound:
  assumes "sub \<noteq> []" "find_first sub s = Some i"
  shows "i + length sub \<le> length s"
  using assms occurs_at_bound [of s sub i] by (simp add: find_first_Some_iff)

lemma Max_const_image:
  assumes "ls \<noteq> []"
  shows "Max (set (map (\<lambda>l. c) ls)) = (c::int)"
proof -
  have "set (map (\<lambda>l. c) ls) = {c}" using assms by (cases ls) auto
  then show ?thesis by simp
qed

lemma aligned_batch_unchanged:
  assumes ne: "alignstr \<noteq> []"
  shows "ls \<noteq> [] \<Longrightarrow> 0 \<le> s \<Longrightarrow>
    (\<forall>l\<in>set ls. search_start l = s \<and> s \<le> py_len (text_of l) \<and>
        columns_at alignfirst alignstr ms (rest l)) \<Longrightarrow>
    length ms < timer \<Longrightarrow>
    \<exists>ls'. align_loop timer ls alignstr alignfirst = Some (Break, ls') \<and>
          map text_of ls' = map text_of ls"
proof (induction ms arbitrary: ls s timer)
  case Nil
  then obtain t where t: "timer = Suc t" by (cases timer) auto
  define h where "h = (\<lambda>l::LineObj. l\<lparr>search_start := py_len (text_of l)\<rparr>)"
  have fa: "find_next_all ls alignstr alignfirst = Some (Inr (map (\<lambda>l. -1) ls), map h ls)"
  proof (rule find_next_all_map)
    fix l assume "l \<in> set ls"
    with Nil.prems show "find_next l alignstr alignfirst = Some (Inr (-1), h l)"
      by (simp add: find_next_none h_def)
  qed
  have mx: "py_max (map (\<lambda>l. -1) ls) = Inr (-1)"
    using Nil.prems(1) py_max_Max [of "map (\<lambda>l. -1) ls"] Max_const_image [of ls "-1"]
    by simp
  have "align_loop timer ls alignstr alignfirst = Some (Break, map h ls)"
    by (simp add: t fa mx)
  moreover have "map text_of (map h ls) = map text_of ls" by (simp add: h_def)
  ultimately show ?case by blast
next
  case (Cons m ms)
  then obtain t where t: "timer = Suc t" "length ms < t" by (cases timer) auto
  define h where "h = (\<lambda>l::LineObj. l\<lparr>search_start := s + int m + py_len alignstr,
      last_find := s + int m\<rparr>)"
  have each: "find_first alignstr (rest l) = Some m"
      "alignfirst \<or> \<not> occurs_at (rest l) alignstr (m + length alignstr)"
      "columns_at alignfirst alignstr ms (drop (m + length alignstr) (rest l))"
      "search_start l = s" "s \<le> py_len (text_of l)"
    if "l \<in> set ls" for l
    using Cons.prems(3) that by simp_all
  have fa: "find_next_all ls alignstr alignfirst = Some (Inr (map (\<lambda>l. s + int m) ls), map h ls)"
  proof (rule find_next_all_map)
    fix l assume l: "l \<in> set ls"
    from find_next_single [OF ne _ _ each(1) [OF l] each(2) [OF l]] each(4,5) [OF l] Cons.prems(2)
    show "find_next l alignstr alignfirst = Some (Inr (s + int m), h l)"
      by (simp add: h_def)
  qed
  have mx: "py_max (map (\<lambda>l. s + int m) ls) = Inr (s + int m)"
    using Cons.prems(1) py_max_Max [of "map (\<lambda>l. s + int m) ls"] Max_const_image [of ls "s + int m"]
    by simp
  have pad: "pad_line (s + int m) \<circ> h = h"
    by (rule ext) (simp add: pad_line_def h_def Let_def)
  have step: "align_loop timer ls alignstr alignfirst = align_loop t (map h ls) alignstr alignfirst"
    using Cons.prems(2) by (simp add: t fa mx pad)
  have "\<exists>ls'. align_loop t (map h ls) alignstr alignfirst = Some (Break, ls') \<and>
          map text_of ls' = map text_of (map h ls)"
  proof (rule Cons.IH [where s = "s + int m + py_len alignstr"])
    show "map h ls \<noteq> []" using Cons.prems(1) by simp
    show "0 \<le> s + int m + py_len alignstr" using Cons.prems(2) by (simp add: py_len_def)
    show "length ms < t" by (rule t(2))
    show "\<forall>l\<in>set (map h ls). search_start l = s + int m + py_len alignstr \<and>
        s + int m + py_len alignstr \<le> py_len (text_of l) \<and>
        columns_at alignfirst alignstr ms (rest l)"
    proof
      fix l' assume "l' \<in> set (map h ls)"
      then obtain l where l: "l \<in> set ls" "l' = h l" by auto
      have b: "m + length alignstr \<le> length (rest l)"
        using find_first_Some_bound [OF ne each(1) [OF l(1)]] .
      have sl: "nat s \<le> length (text_of l)" using each(5) [OF l(1)] Cons.prems(2)
        by (simp add: py_len_def)
      have b': "s + int m + py_len alignstr \<le> py_len (text_of l)"
        using b sl Cons.prems(2) by (simp add: rest_def each(4) [OF l(1)] py_len_def)
      have "nat (s + int m + py_len alignstr) = m + length alignstr + nat s"
        using Cons.prems(2) by (simp add: py_len_def)
      then have r: "rest (h l) = drop (m + length alignstr) (rest l)"
        by (simp add: rest_def h_def each(4) [OF l(1)])
      show "search_start l' = s + int m + py_len alignstr \<and>
        s + int m + py_len alignstr \<le> py_len (text_of l') \<and>
        columns_at alignfirst alignstr ms (rest l')"
        using b' each(3) [OF l(1)] by (simp add: l(2) r) (simp add: h_def)
    qed
  qed
  with step show ?case by (simp add: h_def comp_def)
qed

lemma find_first_zero_iff: "find_first sub s = Some 0 \<longleftrightarrow> occurs_at s sub 0"
  by (simp add: find_first_Some_iff)

lemma padded_text_columns:
  assumes ne: "alignstr \<noteq> []"
    and sp: "CHR '' '' \<notin> set alignstr"
    and sn: "sn \<le> length T"
    and f: "find_first alignstr (drop sn T) = Some i"
    and single: "alignfirst \<or> \<not> occurs_at (drop sn T) alignstr (i + length alignstr)"
    and ik: "i \<le> Mi"
    and T1: "T1 = take (sn + i) T @ spaces (int (Mi - i)) @ drop (sn + i) T"
    and pre: "take (sn + Mi + length alignstr) T' = take (sn + Mi + length alignstr) T1"
    and cols: "columns_at alignfirst alignstr ms (drop (sn + Mi + length alignstr) T')"
    and low: "\<forall>j. find_first alignstr (drop (sn + Mi + length alignstr) T') = Some j \<longrightarrow>
        (\<exists>j0\<le>j. find_first alignstr (drop (sn + i + length alignstr) T) = Some j0)"
  shows "take sn T' = take sn T \<and>
         columns_at alignfirst alignstr (Mi # ms) (drop sn T') \<and>
         (\<forall>j. find_first alignstr (drop sn T') = Some j \<longrightarrow>
            (\<exists>j0\<le>j. find_first alignstr (drop sn T) = Some j0))"
proof -
  define R where "R = drop sn T"
  define n where "n = length alignstr"
  have R1: "drop sn T1 = take i R @ spaces (int (Mi - i)) @ drop i R"
    using sn by (simp add: T1 R_def drop_take add.commute)
  have fp: "find_first alignstr (drop sn T1) = Some Mi"
    using find_first_pad [OF ne sp f [folded R_def], of "Mi - i"] ik by (simp add: R1)
  have "drop sn (take (sn + Mi + n) T') = drop sn (take (sn + Mi + n) T1)"
    using pre by (simp add: n_def)
  then have "take (Mi + n) (drop sn T') = take (Mi + n) (drop sn T1)"
    by (simp add: take_drop add.commute add.left_commute)
  with find_first_prefix [OF ne fp, of "drop sn T'"]
  have ff: "find_first alignstr (drop sn T') = Some Mi" by (simp add: n_def)
  have "take sn (take (sn + Mi + n) T') = take sn (take (sn + Mi + n) T1)"
    using pre by (simp add: n_def)
  then have "take sn T' = take sn T1" by (simp add: min_def)
  also have "\<dots> = take sn T" using sn by (simp add: T1)
  finally have a: "take sn T' = take sn T" .
  have c: "columns_at alignfirst alignstr ms (drop (Mi + n) (drop sn T'))"
    using cols by (simp add: n_def add.commute add.left_commute)
  have s: "alignfirst \<or> \<not> occurs_at (drop sn T') alignstr (Mi + n)"
  proof (cases alignfirst)
    case True
    then show ?thesis by simp
  next
    case False
    have "\<not> occurs_at (drop sn T') alignstr (Mi + n)"
    proof
      assume "occurs_at (drop sn T') alignstr (Mi + n)"
      then have "occurs_at (drop (sn + Mi + n) T') alignstr 0"
        by (simp add: occurs_at_drop add.assoc)
      then have "find_first alignstr (drop (sn + Mi + n) T') = Some 0"
        by (simp add: find_first_zero_iff)
      with low have "find_first alignstr (drop (sn + i + n) T) = Some 0"
        by (auto simp: n_def)
      then have "occurs_at (drop (sn + i + n) T) alignstr 0"
        by (simp add: find_first_zero_iff)
      then have "occurs_at (drop sn T) alignstr (i + n)"
        by (simp add: occurs_at_drop add.assoc)
      with single False show False by (simp add: n_def)
    qed
    then show ?thesis by simp
  qed
  have l: "\<forall>j. find_first alignstr (drop sn T') = Some j \<longrightarrow>
            (\<exists>j0\<le>j. find_first alignstr (drop sn T) = Some j0)"
    using ff f ik by auto
  from a ff s c l show ?thesis by (simp add: n_def)
qed

lemma padded_facts:
  assumes ne: "alignstr \<noteq> []"
    and s0: "0 \<le> s"
    and ss: "search_start l = s"
    and le: "s \<le> py_len (text_of l)"
    and f: "find_first alignstr (rest l) = Some i"
    and m: "s + int i \<le> m"
  shows "pad_line m (l\<lparr>search_start := s + int i + py_len alignstr, last_find := s + int i\<rparr>) =
           padded alignstr m l"
    and "search_start (padded alignstr m l) = m + py_len alignstr"
    and "m + py_len alignstr \<le> py_len (text_of (padded alignstr m l))"
    and "rest (padded alignstr m l) = drop (i + length alignstr) (rest l)"
    and "text_of (padded alignstr m l) =
           take (nat s + i) (text_of l) @ spaces (int (nat (m - s) - i)) @ drop (nat s + i) (text_of l)"
proof -
  define p where "p = s + int i"
  define T where "T = text_of l"
  have sl: "nat s \<le> length T" using le s0 by (simp add: py_len_def T_def)
  have b: "i + length alignstr \<le> length T - nat s"
    using find_first_Some_bound [OF ne f] by (simp add: rest_def ss T_def)
  have np: "nat p = nat s + i" using s0 by (simp add: p_def nat_add_distrib)
  have pl: "nat p + length alignstr \<le> length T" using b sl np by simp
  have pm: "p \<le> m" "0 \<le> p" using m s0 by (simp_all add: p_def)
  have pd: "padded alignstr m l =
      l\<lparr>text_of := take (nat p) T @ spaces (m - p) @ drop (nat p) T,
        search_start := m + py_len alignstr, last_find := m\<rparr>"
    by (simp add: padded_def Let_def f ss p_def T_def)
  have "pad_line m (l\<lparr>search_start := p + py_len alignstr, last_find := p\<rparr>) =
      (l\<lparr>search_start := p + py_len alignstr, last_find := p\<rparr>)
        \<lparr>text_of := take (nat p) T @ spaces (m - p) @ drop (nat p) T,
         search_start := p + py_len alignstr + (m - p), last_find := m\<rparr>"
    using pm pl by (subst pad_line_eq [where p = p]) (simp_all add: py_len_def T_def)
  then show "pad_line m (l\<lparr>search_start := s + int i + py_len alignstr, last_find := s + int i\<rparr>) =
           padded alignstr m l"
    by (simp add: pd p_def)
  show "search_start (padded alignstr m l) = m + py_len alignstr" by (simp add: pd)
  have len: "length (take (nat p) T @ spaces (m - p)) = nat m"
    using pm pl by (simp add: spaces_def)
  show "m + py_len alignstr \<le> py_len (text_of (padded alignstr m l))"
    using pm pl by (simp add: pd py_len_def spaces_def)
  have nm: "nat (m + py_len alignstr) = nat m + length alignstr"
    using pm by (simp add: py_len_def nat_add_distrib)
  have da: "\<And>A B n. drop (length A + n) (A @ B) = drop n (B::string)" by simp
  have "drop (nat m + length alignstr) ((take (nat p) T @ spaces (m - p)) @ drop (nat p) T) =
      drop (length alignstr) (drop (nat p) T)"
    unfolding len [symmetric] by (rule da)
  then show "rest (padded alignstr m l) = drop (i + length alignstr) (rest l)"
    by (simp add: rest_def pd nm ss T_def np add.commute add.left_commute)
  have "m - p = int (nat (m - s) - i)" using pm by (simp add: p_def)
  then show "text_of (padded alignstr m l) =
           take (nat s + i) (text_of l) @ spaces (int (nat (m - s) - i)) @ drop (nat s + i) (text_of l)"
    by (simp add: pd np T_def)
qed

lemma first_run_aligns:
  assumes ne: "alignstr \<noteq> []" and sp: "CHR '' '' \<notin> set alignstr"
  shows "ls \<noteq> [] \<Longrightarrow> 0 \<le> s \<Longrightarrow>
    (\<forall>l\<in>set ls. search_start l = s \<and> s \<le> py_len (text_of l) \<and>
        columns alignfirst alignstr n (rest l)) \<Longrightarrow>
    n < timer \<Longrightarrow>
    \<exists>ls' ms. align_loop timer ls alignstr alignfirst = Some (Break, ls') \<and> length ms = n \<and>
       list_all2 (aligned_from alignfirst alignstr ms s) ls ls'"
proof (induction n arbitrary: ls s timer)
  case 0
  then obtain t where t: "timer = Suc t" by (cases timer) auto
  define h where "h = (\<lambda>l::LineObj. l\<lparr>search_start := py_len (text_of l)\<rparr>)"
  have none: "find_first alignstr (rest l) = None" if "l \<in> set ls" for l
    using "0.prems"(3) that by simp
  have fa: "find_next_all ls alignstr alignfirst = Some (Inr (map (\<lambda>l. -1) ls), map h ls)"
  proof (rule find_next_all_map)
    fix l assume "l \<in> set ls"
    with "0.prems" show "find_next l alignstr alignfirst = Some (Inr (-1), h l)"
      by (simp add: find_next_none h_def)
  qed
  have mx: "py_max (map (\<lambda>l. -1) ls) = Inr (-1)"
    using "0.prems"(1) py_max_Max [of "map (\<lambda>l. -1) ls"] Max_const_image [of ls "-1"]
    by simp
  have run: "align_loop timer ls alignstr alignfirst = Some (Break, map h ls)"
    by (simp add: t fa mx)
  have "aligned_from alignfirst alignstr [] s l (h l)" if "l \<in> set ls" for l
    using none [OF that] by (simp add: aligned_from_def h_def rest_def "0.prems"(3) that)
  then have "list_all2 (aligned_from alignfirst alignstr [] s) ls (map h ls)"
    by (simp add: list_all2_map2 list_all2_same)
  with run show ?case by (intro exI [of _ "map h ls"] exI [of _ "[]"]) simp
next
  case (Suc n)
  then obtain t where t: "timer = Suc t" "n < t" by (cases timer) auto
  define i where "i = (\<lambda>l. the (find_first alignstr (rest l)))"
  define g where "g = (\<lambda>l. s + int (i l))"
  define adv where "adv = (\<lambda>l::LineObj. l\<lparr>search_start := g l + py_len alignstr, last_find := g l\<rparr>)"
  define M where "M = Max (set (map g ls))"
  have each: "find_first alignstr (rest l) = Some (i l)"
      "alignfirst \<or> \<not> occurs_at (rest l) alignstr (i l + length alignstr)"
      "columns alignfirst alignstr n (drop (i l + length alignstr) (rest l))"
      "search_start l = s" "s \<le> py_len (text_of l)"
    if "l \<in> set ls" for l
    using Suc.prems(3) that by (auto simp: i_def split: option.splits)
  have fa: "find_next_all ls alignstr alignfirst = Some (Inr (map g ls), map adv ls)"
  proof (rule find_next_all_map)
    fix l assume l: "l \<in> set ls"
    from find_next_single [OF ne _ _ each(1) [OF l] each(2) [OF l]] each(4,5) [OF l] Suc.prems(2)
    show "find_next l alignstr alignfirst = Some (Inr (g l), adv l)"
      by (simp add: adv_def g_def)
  qed
  have mx: "py_max (map g ls) = Inr M"
    using Suc.prems(1) py_max_Max [of "map g ls"] by (simp add: M_def)
  have gM: "g l \<le> M" if "l \<in> set ls" for l
    unfolding M_def using that by (intro Max_ge) auto
  have M0: "0 \<le> M"
  proof -
    from Suc.prems(1) obtain l where l: "l \<in> set ls" by (cases ls) auto
    have "0 \<le> g l" using Suc.prems(2) by (simp add: g_def)
    with gM [OF l] show ?thesis by simp
  qed
  have pf: "pad_line M (adv l) = padded alignstr M l"
      "search_start (padded alignstr M l) = M + py_len alignstr"
      "M + py_len alignstr \<le> py_len (text_of (padded alignstr M l))"
      "rest (padded alignstr M l) = drop (i l + length alignstr) (rest l)"
      "text_of (padded alignstr M l) =
           take (nat s + i l) (text_of l) @ spaces (int (nat (M - s) - i l)) @
           drop (nat s + i l) (text_of l)"
    if l: "l \<in> set ls" for l
    using padded_facts [OF ne Suc.prems(2) each(4) [OF l] each(5) [OF l] each(1) [OF l], of M]
      gM [OF l] by (simp_all add: adv_def g_def)
  have pad: "map (pad_line M \<circ> adv) ls = map (padded alignstr M) ls"
    using pf(1) by simp
  have step: "align_loop timer ls alignstr alignfirst =
      align_loop t (map (padded alignstr M) ls) alignstr alignfirst"
    using M0 by (simp add: t fa mx pad)
  have "\<exists>ls' ms. align_loop t (map (padded alignstr M) ls) alignstr alignfirst = Some (Break, ls') \<and>
       length ms = n \<and>
       list_all2 (aligned_from alignfirst alignstr ms (M + py_len alignstr))
         (map (padded alignstr M) ls) ls'"
  proof (rule Suc.IH)
    show "map (padded alignstr M) ls \<noteq> []" using Suc.prems(1) by simp
    show "0 \<le> M + py_len alignstr" using M0 by (simp add: py_len_def)
    show "n < t" by (rule t(2))
    show "\<forall>l\<in>set (map (padded alignstr M) ls).
        search_start l = M + py_len alignstr \<and> M + py_len alignstr \<le> py_len (text_of l) \<and>
        columns alignfirst alignstr n (rest l)"
      using pf(2,3,4) each(3) by auto
  qed
  then obtain ls' ms where
    run: "align_loop t (map (padded alignstr M) ls) alignstr alignfirst = Some (Break, ls')"
    and len: "length ms = n"
    and all: "list_all2 (\<lambda>l l'. aligned_from alignfirst alignstr ms (M + py_len alignstr)
                 (padded alignstr M l) l') ls ls'"
    by (auto simp: list_all2_map1)
  have "list_all2 (aligned_from alignfirst alignstr (nat (M - s) # ms) s) ls ls'"
  proof (rule list.rel_mono_strong [OF all])
    fix l l'
    assume l: "l \<in> set ls"
      and a: "aligned_from alignfirst alignstr ms (M + py_len alignstr) (padded alignstr M l) l'"
    have sn: "nat s \<le> length (text_of l)"
      using each(5) [OF l] Suc.prems(2) by (simp add: py_len_def)
    have iM: "i l \<le> nat (M - s)" using gM [OF l] by (simp add: g_def)
    have nM: "nat (M + py_len alignstr) = nat s + nat (M - s) + length alignstr"
      using gM [OF l] Suc.prems(2) by (simp add: py_len_def g_def)
    have r: "rest l = drop (nat s) (text_of l)" by (simp add: rest_def each(4) [OF l])
    from a have
      pre: "take (nat s + nat (M - s) + length alignstr) (text_of l') =
            take (nat s + nat (M - s) + length alignstr) (text_of (padded alignstr M l))"
      and cols: "columns_at alignfirst alignstr ms
            (drop (nat s + nat (M - s) + length alignstr) (text_of l'))"
      and low: "\<forall>j. find_first alignstr
            (drop (nat s + nat (M - s) + length alignstr) (text_of l')) = Some j \<longrightarrow>
            (\<exists>j0\<le>j. find_first alignstr (drop (nat s + i l + length alignstr) (text_of l)) = Some j0)"
      by (simp_all add: aligned_from_def nM pf(4) [OF l] r add.commute add.left_commute)
    from padded_text_columns [OF ne sp sn each(1) [OF l, unfolded r] each(2) [OF l, unfolded r]
        iM pf(5) [OF l] pre cols low]
    show "aligned_from alignfirst alignstr (nat (M - s) # ms) s l l'"
      by (simp add: aligned_from_def r)
  qed
  with step run len show ?case
    by (intro exI [of _ ls'] exI [of _ "nat (M - s) # ms"]) simp
qed

section \<open>The claims\<close>

text \<open>
  C1. Claimed: in delimiter alignment, once \<^verbatim>\<open>find_next\<close> has reported not-found for a line,
  later passes insert no spaces into that line. The loop pads by \<^verbatim>\<open>line.last_find\<close>, which
  a not-found answer leaves at the position of the line's last match, and \<^verbatim>\<open>last_find\<close> is
  never negative, so the guard \<^verbatim>\<open>if linepos < 0: continue\<close> never fires. On the batch
  \<open>a|b\<close>, \<open>a|b|c\<close> with delimiter \<open>|\<close>: after the first pass both trackers stand behind
  their first bar; in the second pass \<^verbatim>\<open>find_next\<close> answers \<open>-1\<close> for \<open>a|b\<close>, and the pass
  still inserts two spaces into it; the final text of the exhausted line is \<open>a  |b\<close>.
\<close>

theorem exhausted_line_is_padded:
  "align_loop 1 (map (LineObj_init 0 0) [''a|b'', ''a|b|c'']) ''|'' False =
     Some (Timeout,
       [\<lparr>begin_pt = 0, end_pt = 0, text_of = ''a|b'', search_start = 2, last_find = 1\<rparr>,
        \<lparr>begin_pt = 0, end_pt = 0, text_of = ''a|b|c'', search_start = 2, last_find = 1\<rparr>]) \<and>
   find_next \<lparr>begin_pt = 0, end_pt = 0, text_of = ''a|b'', search_start = 2, last_find = 1\<rparr>
       ''|'' False =
     Some (Inr (-1),
       \<lparr>begin_pt = 0, end_pt = 0, text_of = ''a|b'', search_start = 3, last_find = 1\<rparr>) \<and>
   align_loop 2 (map (LineObj_init 0 0) [''a|b'', ''a|b|c'']) ''|'' False =
     Some (Timeout,
       [\<lparr>begin_pt = 0, end_pt = 0, text_of = ''a  |b'', search_start = 5, last_find = 3\<rparr>,
        \<lparr>begin_pt = 0, end_pt = 0, text_of = ''a|b|c'', search_start = 4, last_find = 3\<rparr>]) \<and>
   align_texts (Suc (Suc (Suc timer))) [''a|b'', ''a|b|c''] ''|'' False =
     Some (Break, [''a  |b'', ''a|b|c''])"
  by code_simp



text \<open>
  C3, for a delimiter that is not empty. With \<^verbatim>\<open>alignfirst = False\<close>, when \<^verbatim>\<open>text.find\<close> finds
  the delimiter at \<open>p\<close>, \<^verbatim>\<open>find_next\<close> returns \<open>p + k * len(alignstr)\<close> for the \<open>k\<close> such that
  the delimiter occurs at \<open>p\<close>, \<open>p + len\<close>, ..., \<open>p + k * len\<close> and does not occur at
  \<open>p + (k + 1) * len\<close>: the last occurrence of the run of adjacent occurrences that starts
  at the first match. It sets \<^verbatim>\<open>last_find\<close> to that position and \<^verbatim>\<open>search_start\<close> to that
  position plus the length of the delimiter, and changes nothing else. For a
  \<^verbatim>\<open>search_start\<close> that is not negative, \<open>p\<close> is the first place at or after it where the
  delimiter occurs.
\<close>

theorem find_next_last_of_run:
  assumes ne: "alignstr \<noteq> []"
    and p: "py_find (text_of self) alignstr (search_start self) = p"
    and found: "p \<noteq> -1"
  shows "\<exists>k. find_next self alignstr False =
           Some (Inr (p + int k * py_len alignstr),
                 self\<lparr>search_start := p + int k * py_len alignstr + py_len alignstr,
                      last_find := p + int k * py_len alignstr\<rparr>) \<and>
         (\<forall>j\<le>k. occurs_at (text_of self) alignstr (nat (p + int j * py_len alignstr))) \<and>
         \<not> occurs_at (text_of self) alignstr (nat (p + int (Suc k) * py_len alignstr)) \<and>
         (0 \<le> search_start self \<longrightarrow>
            search_start self \<le> p \<and>
            (\<forall>q. search_start self \<le> q \<and> q < p \<longrightarrow> \<not> occurs_at (text_of self) alignstr (nat q)))"
proof -
  from py_find_occurs [OF p found] have p0: "0 \<le> p" by simp
  have first: "0 \<le> search_start self \<longrightarrow>
            search_start self \<le> p \<and>
            (\<forall>q. search_start self \<le> q \<and> q < p \<longrightarrow> \<not> occurs_at (text_of self) alignstr (nat q))"
  proof
    assume s0: "0 \<le> search_start self"
    from py_find_found_iff [OF s0 p0, of "text_of self" alignstr] p
    show "search_start self \<le> p \<and>
            (\<forall>q. search_start self \<le> q \<and> q < p \<longrightarrow> \<not> occurs_at (text_of self) alignstr (nat q))"
      by simp
  qed
  from find_next_skips_run [OF ne p found] obtain k where
    "find_next self alignstr False =
           Some (Inr (p + int k * py_len alignstr),
                 self\<lparr>search_start := p + int k * py_len alignstr + py_len alignstr,
                      last_find := p + int k * py_len alignstr\<rparr>) \<and>
         (\<forall>j\<le>k. occurs_at (text_of self) alignstr (nat (p + int j * py_len alignstr))) \<and>
         \<not> occurs_at (text_of self) alignstr (nat (p + int (Suc k) * py_len alignstr))"
    by blast
  with first show ?thesis by blast
qed

theorem find_next_last_of_run_witness:
  "''|'' \<noteq> [] \<and> py_find ''a||b'' ''|'' 0 = 1 \<and>
   (\<exists>k. find_next (LineObj_init 0 4 ''a||b'') ''|'' False =
           Some (Inr (1 + int k), (LineObj_init 0 4 ''a||b'')\<lparr>search_start := 1 + int k + 1,
                      last_find := 1 + int k\<rparr>) \<and>
         occurs_at ''a||b'' ''|'' (nat (1 + int k)) \<and>
         \<not> occurs_at ''a||b'' ''|'' (nat (1 + int (Suc k)))) \<and>
   find_next (LineObj_init 0 4 ''a||b'') ''|'' False =
     Some (Inr 2, \<lparr>begin_pt = 0, end_pt = 4, text_of = ''a||b'', search_start = 3, last_find = 2\<rparr>)"
proof -
  have ne: "''|'' \<noteq> []" by simp
  have p: "py_find (text_of (LineObj_init 0 4 ''a||b'')) ''|'' (search_start (LineObj_init 0 4 ''a||b'')) = 1"
    by code_simp
  have f: "(1::int) \<noteq> -1" by simp
  from find_next_last_of_run [OF ne p f] obtain k where
    k: "find_next (LineObj_init 0 4 ''a||b'') ''|'' False =
           Some (Inr (1 + int k * py_len ''|''),
                 (LineObj_init 0 4 ''a||b'')\<lparr>search_start := 1 + int k * py_len ''|'' + py_len ''|'',
                      last_find := 1 + int k * py_len ''|''\<rparr>)"
       "\<forall>j\<le>k. occurs_at (text_of (LineObj_init 0 4 ''a||b'')) ''|'' (nat (1 + int j * py_len ''|''))"
       "\<not> occurs_at (text_of (LineObj_init 0 4 ''a||b'')) ''|'' (nat (1 + int (Suc k) * py_len ''|''))"
    by blast
  have l: "py_len ''|'' = 1" by (simp add: py_len_def)
  have t: "text_of (LineObj_init 0 4 ''a||b'') = ''a||b''" by (simp add: LineObj_init_def)
  from k(2) have "occurs_at (text_of (LineObj_init 0 4 ''a||b'')) ''|'' (nat (1 + int k * py_len ''|''))"
    by blast
  with k(1,3) have ex: "\<exists>k. find_next (LineObj_init 0 4 ''a||b'') ''|'' False =
           Some (Inr (1 + int k), (LineObj_init 0 4 ''a||b'')\<lparr>search_start := 1 + int k + 1,
                      last_find := 1 + int k\<rparr>) \<and>
         occurs_at ''a||b'' ''|'' (nat (1 + int k)) \<and>
         \<not> occurs_at ''a||b'' ''|'' (nat (1 + int (Suc k)))"
    unfolding l t by auto
  have p': "py_find ''a||b'' ''|'' 0 = 1" by code_simp
  have v: "find_next (LineObj_init 0 4 ''a||b'') ''|'' False =
     Some (Inr 2, \<lparr>begin_pt = 0, end_pt = 4, text_of = ''a||b'', search_start = 3, last_find = 2\<rparr>)"
    by code_simp
  from ne p' ex v show ?thesis by blast
qed

text \<open>
  C3 as claimed covers every delimiter. For the empty delimiter, found at position 0 of
  the text \<open>a\<close>, \<^verbatim>\<open>find_next\<close> with \<^verbatim>\<open>alignfirst = False\<close> does not return: the loop of
  source line 56 adds \<open>0\<close> to \<^verbatim>\<open>pos\<close> for ever.
\<close>

theorem find_next_empty_delimiter_diverges:
  "py_find ''a'' [] 0 = 0 \<and> find_next (LineObj_init 0 1 ''a'') [] False = None"
proof -
  have p: "py_find ''a'' [] 0 = 0" by code_simp
  have "last_in_run ''a'' [] 0 = None"
    by (rule last_in_run_empty_None) (simp_all add: py_len_def)
  with p show ?thesis by (simp add: find_next_def LineObj_init_def Let_def py_len_def)
qed

text \<open>
  C4. \<^verbatim>\<open>insert\<close> clamps the position into \<open>[0, len(text)]\<close>, splices the value into the
  text at the clamped position, adds \<open>len(val)\<close> to \<^verbatim>\<open>search_start\<close> exactly when the clamped
  position is \<open>\<le> search_start\<close>, adds it to \<^verbatim>\<open>last_find\<close> exactly when the clamped position
  is \<open>\<le> last_find\<close>, and leaves the cursors unchanged otherwise.
\<close>

theorem insert_at_splice:
  "text_of (insert_at self pos val) =
     take (nat (min (max pos 0) (py_len (text_of self)))) (text_of self) @ val @
     drop (nat (min (max pos 0) (py_len (text_of self)))) (text_of self) \<and>
   search_start (insert_at self pos val) =
     (if min (max pos 0) (py_len (text_of self)) \<le> search_start self
      then search_start self + py_len val else search_start self) \<and>
   last_find (insert_at self pos val) =
     (if min (max pos 0) (py_len (text_of self)) \<le> last_find self
      then last_find self + py_len val else last_find self) \<and>
   begin_pt (insert_at self pos val) = begin_pt self \<and>
   end_pt (insert_at self pos val) = end_pt self"
  unfolding insert_at_eq clamp_pos_def by simp

theorem insert_at_splice_witness:
  "text_of (insert_at \<lparr>begin_pt = 0, end_pt = 5, text_of = ''ab|cd'', search_start = 3, last_find = 2\<rparr> 2 ''  '') = ''ab  |cd'' \<and>
   search_start (insert_at \<lparr>begin_pt = 0, end_pt = 5, text_of = ''ab|cd'', search_start = 3, last_find = 2\<rparr> 2 ''  '') = 5 \<and>
   last_find (insert_at \<lparr>begin_pt = 0, end_pt = 5, text_of = ''ab|cd'', search_start = 3, last_find = 2\<rparr> 2 ''  '') = 4 \<and>
   text_of (insert_at \<lparr>begin_pt = 0, end_pt = 5, text_of = ''ab|cd'', search_start = 3, last_find = 2\<rparr> 9 ''  '') = ''ab|cd  '' \<and>
   search_start (insert_at \<lparr>begin_pt = 0, end_pt = 5, text_of = ''ab|cd'', search_start = 3, last_find = 2\<rparr> 9 ''  '') = 3 \<and>
   last_find (insert_at \<lparr>begin_pt = 0, end_pt = 5, text_of = ''ab|cd'', search_start = 3, last_find = 2\<rparr> 3 ''  '') = 2"
  using insert_at_splice [of "\<lparr>begin_pt = 0, end_pt = 5, text_of = ''ab|cd'', search_start = 3, last_find = 2\<rparr>" 2 "''  ''"]
    insert_at_splice [of "\<lparr>begin_pt = 0, end_pt = 5, text_of = ''ab|cd'', search_start = 3, last_find = 2\<rparr>" 9 "''  ''"]
    insert_at_splice [of "\<lparr>begin_pt = 0, end_pt = 5, text_of = ''ab|cd'', search_start = 3, last_find = 2\<rparr>" 3 "''  ''"]
  by (simp add: py_len_def)

text \<open>
  C5. Claimed: when the delimiter resolves to the empty string, the operation reports an
  error and aborts with no edit. The source sends the message but does not return. On
  the buffer \<open>a|b\<close> with the cursor at its end the delimiter is empty; with
  \<^verbatim>\<open>alignfirst = False\<close> the call never returns (for every timer that survives the two
  checks before \<^verbatim>\<open>find_next\<close>), and with \<^verbatim>\<open>alignfirst = True\<close> it runs until the timer
  ticks and reports a second error. When the buffer ends in an empty line and the cursor
  stands there, no line is collected and \<^verbatim>\<open>lines[0]\<close> raises.
\<close>

theorem empty_delimiter_does_not_abort:
  "view_substr (mkview ''a|b'') (3, 3 + 1) = [] \<and>
   align_by_selected_str (mkview ''a|b'') (3, 3) (Suc (Suc timer)) False = None \<and>
   align_by_selected_str (mkview ''a|b'') (3, 3) 5 True =
     Some (Return, \<lparr>buffer = ''a|b'',
                     status = [''Programmer error: empty align string'',
                               ''Programmer error: timeout on line 204''],
                     tab_size = 4\<rparr>) \<and>
   align_by_selected_str (mkview (''a|b'' @ [newline])) (4, 4) timer alignfirst =
     Some (Raise IndexError, \<lparr>buffer = ''a|b'' @ [newline],
                     status = [''Programmer error: empty align string''],
                     tab_size = 4\<rparr>)"
proof -
  have s: "view_substr (mkview ''a|b'') (3, 3 + 1) = []" by code_simp
  have 3: "align_by_selected_str (mkview (''a|b'' @ [newline])) (4, 4) timer alignfirst =
     Some (Raise IndexError, \<lparr>buffer = ''a|b'' @ [newline],
                     status = [''Programmer error: empty align string''],
                     tab_size = 4\<rparr>)"
    by code_simp
  have l: "view_line (mkview ''a|b'') 3 = (0, 3)" by code_simp
  have g: "\<And>v. buffer v = ''a|b'' \<Longrightarrow> get_line v 0 =
      Some \<lparr>begin_pt = 0, end_pt = 3, text_of = ''a|b'', search_start = 0, last_find = 0\<rparr>"
    by (simp add: get_line_def view_size_def py_len_def view_line_def line_start_def clamp_pt_def
        view_substr_def region_begin_def region_end_def LineObj_init_def newline_def Let_def)
  have g2: "\<And>v. buffer v = ''a|b'' \<Longrightarrow> get_line v 4 = None"
    by (simp add: get_line_def view_size_def py_len_def)
  have ga: "\<And>v. buffer v = ''a|b'' \<Longrightarrow> gather_lines v [] (get_line v 0) [] (Suc (Suc timer)) =
      Some ([\<lparr>begin_pt = 0, end_pt = 3, text_of = ''a|b'', search_start = 0, last_find = 0\<rparr>], Suc timer)"
    by (simp add: g g2 py_in_def)
  have div: "last_in_run ''a|b'' [] 0 = None"
    by (rule last_in_run_empty_None) (simp_all add: py_len_def)
  have pf: "py_find ''a|b'' [] 0 = 0" by code_simp
  have fn: "find_next \<lparr>begin_pt = 0, end_pt = 3, text_of = ''a|b'', search_start = 0, last_find = 0\<rparr> [] False = None"
    using pf div by (simp add: find_next_def Let_def py_len_def)
  have lp: "\<And>t. align_loop t [\<lparr>begin_pt = 0, end_pt = 3, text_of = ''a|b'', search_start = 0, last_find = 0\<rparr>] [] False
      = (if t = 0 then Some (Timeout, [\<lparr>begin_pt = 0, end_pt = 3, text_of = ''a|b'', search_start = 0, last_find = 0\<rparr>]) else None)"
  proof -
    fix t show "align_loop t [\<lparr>begin_pt = 0, end_pt = 3, text_of = ''a|b'', search_start = 0, last_find = 0\<rparr>] [] False
      = (if t = 0 then Some (Timeout, [\<lparr>begin_pt = 0, end_pt = 3, text_of = ''a|b'', search_start = 0, last_find = 0\<rparr>]) else None)"
      by (cases t) (simp_all add: fn)
  qed
  define v1 where "v1 = status_message (mkview ''a|b'') ''Programmer error: empty align string''"
  have b1: "buffer v1 = ''a|b''" by (simp add: v1_def status_message_def mkview_def)
  have s4: "view_substr (mkview ''a|b'') (3, 4) = []" by code_simp
  have 1: "align_by_selected_str (mkview ''a|b'') (3, 3) (Suc (Suc timer)) False = None"
    unfolding align_by_selected_str_def
    by (simp add: Let_def region_begin_def region_end_def region_size_def l s4
        v1_def [symmetric] ga [OF b1] lp)
  have 2: "align_by_selected_str (mkview ''a|b'') (3, 3) 5 True =
     Some (Return, \<lparr>buffer = ''a|b'',
                     status = [''Programmer error: empty align string'',
                               ''Programmer error: timeout on line 204''],
                     tab_size = 4\<rparr>)"
    by code_simp
  from s 1 2 3 show ?thesis by blast
qed

text \<open>
  C6. When the selection spans more than one line (the selected text holds a newline),
  \<^verbatim>\<open>align_by_selected_str\<close> returns with the buffer untouched; the error message on the
  status line is its only effect. The same holds for the command run with this one
  selection.
\<close>

theorem selection_spanning_lines_is_rejected:
  assumes "newline \<in> set (view_substr v cursor)"
  shows "align_by_selected_str v cursor timer alignfirst =
           Some (Return,
             v\<lparr>status := status v @ [''Error: selection can't span more than one line'']\<rparr>) \<and>
         my_run v [cursor] timer alignfirst =
           Some (Return,
             v\<lparr>status := status v @ [''Error: selection can't span more than one line'']\<rparr>)"
proof -
  from assms have "region_begin (view_line v (region_end cursor)) \<noteq>
      region_begin (view_line v (region_begin cursor))"
    by (simp add: selection_spans_lines_iff)
  then show ?thesis
    by (simp add: my_run_def align_by_selected_str_def Let_def status_message_def)
qed

theorem selection_spanning_lines_is_rejected_witness:
  "newline \<in> set (view_substr (mkview (''a|b'' @ [newline] @ ''c|d'')) (1, 6)) \<and>
   align_by_selected_str (mkview (''a|b'' @ [newline] @ ''c|d'')) (1, 6) 10 False =
     Some (Return, \<lparr>buffer = ''a|b'' @ [newline] @ ''c|d'',
                     status = [''Error: selection can't span more than one line''],
                     tab_size = 4\<rparr>)"
proof -
  have h: "newline \<in> set (view_substr (mkview (''a|b'' @ [newline] @ ''c|d'')) (1, 6))"
    by code_simp
  from selection_spanning_lines_is_rejected [OF h, of 10 False] h show ?thesis
    by (simp add: mkview_def)
qed

text \<open>
  C7. When some cursor of \<^verbatim>\<open>align_by_cursors\<close> has a size above 0, the call reports the
  error and returns before the loop that inserts: the buffer is untouched. So does the
  command, which takes this path whenever the view holds no or several cursors.
\<close>

theorem range_selection_among_cursors_is_rejected:
  assumes "\<exists>cursor \<in> set cursors. region_size cursor > 0"
  shows "align_by_cursors v cursors timer =
           (Return, v\<lparr>status := status v @
              [''Error: you must have either a selection, a single cursor, or multiple cursors'']\<rparr>) \<and>
         (length cursors \<noteq> 1 \<longrightarrow>
            my_run v cursors timer alignfirst =
              Some (Return, v\<lparr>status := status v @
                [''Error: you must have either a selection, a single cursor, or multiple cursors'']\<rparr>))"
  using assms by (simp add: my_run_def align_by_cursors_def status_message_def)

theorem range_selection_among_cursors_is_rejected_witness:
  "(\<exists>cursor \<in> set [(1, 1), (5, 7)]. region_size cursor > 0) \<and>
   align_by_cursors (mkview (''a b'' @ [newline] @ ''cc d'')) [(1, 1), (5, 7)] 10 =
     (Return, \<lparr>buffer = ''a b'' @ [newline] @ ''cc d'',
               status = [''Error: you must have either a selection, a single cursor, or multiple cursors''],
               tab_size = 4\<rparr>) \<and>
   my_run (mkview (''a b'' @ [newline] @ ''cc d'')) [(1, 1), (5, 7)] 10 False =
     Some (Return, \<lparr>buffer = ''a b'' @ [newline] @ ''cc d'',
               status = [''Error: you must have either a selection, a single cursor, or multiple cursors''],
               tab_size = 4\<rparr>) \<and>
   align_by_cursors (mkview (''a b'' @ [newline] @ ''cc d'')) [(1, 1), (6, 6)] 10 =
     (Return, mkview (''a  b'' @ [newline] @ ''cc d''))"
proof -
  have h: "\<exists>cursor \<in> set [(1, 1), (5, 7)]. region_size cursor > (0::int)"
    by (simp add: region_size_def)
  have e: "align_by_cursors (mkview (''a b'' @ [newline] @ ''cc d'')) [(1, 1), (6, 6)] 10 =
     (Return, mkview (''a  b'' @ [newline] @ ''cc d''))"
    by code_simp
  from range_selection_among_cursors_is_rejected
      [OF h, of "mkview (''a b'' @ [newline] @ ''cc d'')" 10 False] h e
  show ?thesis by (simp add: mkview_def)
qed

text \<open>
  C8, amended. For a delimiter that is not empty and holds no space, and a batch of
  lines that all hold the same number of delimiter occurrences (none of them followed at
  once by another when \<^verbatim>\<open>alignfirst\<close> is false), the alignment returns, and a second run on
  the texts it produced returns the same texts.
\<close>

theorem align_texts_idempotent:
  assumes ne: "alignstr \<noteq> []"
    and sp: "CHR '' '' \<notin> set alignstr"
    and texts: "texts \<noteq> []"
    and cols: "\<forall>t\<in>set texts. columns alignfirst alignstr n t"
    and timer: "n < timer" "n < timer'"
  shows "\<exists>texts'. align_texts timer texts alignstr alignfirst = Some (Break, texts') \<and>
           align_texts timer' texts' alignstr alignfirst = Some (Break, texts')"
proof -
  define ls where "ls = map (LineObj_init 0 0) texts"
  have init: "search_start (LineObj_init 0 0 t) = 0" "text_of (LineObj_init 0 0 t) = t"
      "rest (LineObj_init 0 0 t) = t" for t
    by (simp_all add: LineObj_init_def rest_def)
  have "\<exists>ls' ms. align_loop timer ls alignstr alignfirst = Some (Break, ls') \<and> length ms = n \<and>
       list_all2 (aligned_from alignfirst alignstr ms 0) ls ls'"
  proof (rule first_run_aligns [OF ne sp])
    show "ls \<noteq> []" using texts by (simp add: ls_def)
    show "(0::int) \<le> 0" by simp
    show "n < timer" by (rule timer(1))
    show "\<forall>l\<in>set ls. search_start l = 0 \<and> 0 \<le> py_len (text_of l) \<and>
        columns alignfirst alignstr n (rest l)"
      using cols by (auto simp: ls_def init py_len_def)
  qed
  then obtain ls' ms where
    run1: "align_loop timer ls alignstr alignfirst = Some (Break, ls')"
    and len: "length ms = n"
    and all: "list_all2 (aligned_from alignfirst alignstr ms 0) ls ls'"
    by blast
  define texts' where "texts' = map text_of ls'"
  have r1: "align_texts timer texts alignstr alignfirst = Some (Break, texts')"
    using run1 by (simp add: align_texts_def ls_def texts'_def)
  have ne': "ls' \<noteq> []"
    using list_all2_lengthD [OF all] texts by (auto simp: ls_def)
  have c': "columns_at alignfirst alignstr ms (text_of l')" if "l' \<in> set ls'" for l'
  proof -
    from that obtain k where k: "k < length ls'" "ls' ! k = l'" by (auto simp: in_set_conv_nth)
    with all have "aligned_from alignfirst alignstr ms 0 (ls ! k) l'"
      by (auto simp: list_all2_conv_all_nth)
    then show ?thesis by (simp add: aligned_from_def)
  qed
  have "\<exists>ls''. align_loop timer' (map (LineObj_init 0 0) texts') alignstr alignfirst =
          Some (Break, ls'') \<and>
          map text_of ls'' = map text_of (map (LineObj_init 0 0) texts')"
  proof (rule aligned_batch_unchanged [OF ne, where s = 0 and ms = ms])
    show "map (LineObj_init 0 0) texts' \<noteq> []" using ne' by (simp add: texts'_def)
    show "(0::int) \<le> 0" by simp
    show "length ms < timer'" using len timer(2) by simp
    show "\<forall>l\<in>set (map (LineObj_init 0 0) texts'). search_start l = 0 \<and>
        0 \<le> py_len (text_of l) \<and> columns_at alignfirst alignstr ms (rest l)"
      using c' by (auto simp: texts'_def init py_len_def)
  qed
  then obtain ls'' where
    run2: "align_loop timer' (map (LineObj_init 0 0) texts') alignstr alignfirst = Some (Break, ls'')"
    and same: "map text_of ls'' = map text_of (map (LineObj_init 0 0) texts')"
    by blast
  have "map text_of (map (LineObj_init 0 0) texts') = texts'"
    by (simp add: comp_def init)
  with run2 same have "align_texts timer' texts' alignstr alignfirst = Some (Break, texts')"
    by (simp add: align_texts_def)
  with r1 show ?thesis by blast
qed

theorem align_texts_idempotent_witness:
  "''|'' \<noteq> [] \<and> CHR '' '' \<notin> set ''|'' \<and> [''a|b|c'', ''aaa|bb|c'', ''aa|b|c''] \<noteq> [] \<and>
   list_all (columns True ''|'' 2) [''a|b|c'', ''aaa|bb|c'', ''aa|b|c''] \<and>
   align_texts 3 [''a|b|c'', ''aaa|bb|c'', ''aa|b|c''] ''|'' True =
     Some (Break, [''a  |b |c'', ''aaa|bb|c'', ''aa |b |c'']) \<and>
   align_texts 3 [''a  |b |c'', ''aaa|bb|c'', ''aa |b |c''] ''|'' True =
     Some (Break, [''a  |b |c'', ''aaa|bb|c'', ''aa |b |c''])"
proof -
  have ne: "''|'' \<noteq> []" by simp
  have sp: "CHR '' '' \<notin> set ''|''" by simp
  have tx: "[''a|b|c'', ''aaa|bb|c'', ''aa|b|c''] \<noteq> []" by simp
  have c: "list_all (columns True ''|'' 2) [''a|b|c'', ''aaa|bb|c'', ''aa|b|c'']" by code_simp
  then have cols: "\<forall>t\<in>set [''a|b|c'', ''aaa|bb|c'', ''aa|b|c'']. columns True ''|'' 2 t"
    by (simp only: list_all_iff)
  have t: "(2::nat) < 3" by simp
  from align_texts_idempotent [OF ne sp tx cols t t] obtain texts' where
    r: "align_texts 3 [''a|b|c'', ''aaa|bb|c'', ''aa|b|c''] ''|'' True = Some (Break, texts')"
       "align_texts 3 texts' ''|'' True = Some (Break, texts')"
    by blast
  have e: "align_texts 3 [''a|b|c'', ''aaa|bb|c'', ''aa|b|c''] ''|'' True =
     Some (Break, [''a  |b |c'', ''aaa|bb|c'', ''aa |b |c''])"
    by code_simp
  with r(1) have "texts' = [''a  |b |c'', ''aaa|bb|c'', ''aa |b |c'']" by simp
  with r(2) e ne sp tx c show ?thesis by simp
qed

text \<open>
  C8 as claimed covers every batch and delimiter. A run of adjacent delimiters is split
  by the first alignment and found as two columns by the second; spaces inserted for a
  delimiter that is a space are columns of the second run; and a line with fewer
  occurrences than another is padded again in every later pass. In each case the second
  run changes the texts of the first.
\<close>

theorem align_texts_not_idempotent:
  "align_texts 5 [''a||b'', ''ccc|b''] ''|'' False = Some (Break, [''a| |b'', ''ccc|b'']) \<and>
   align_texts 5 [''a| |b'', ''ccc|b''] ''|'' False = Some (Break, [''a  | |b'', ''ccc  |b'']) \<and>
   align_texts 5 [''a b'', ''cc d''] '' '' True = Some (Break, [''a  b'', ''cc d'']) \<and>
   align_texts 5 [''a  b'', ''cc d''] '' '' True = Some (Break, [''a   b'', ''cc  d'']) \<and>
   align_texts 5 [''a|b'', ''a|b|c''] ''|'' True = Some (Break, [''a  |b'', ''a|b|c'']) \<and>
   align_texts 5 [''a  |b'', ''a|b|c''] ''|'' True = Some (Break, [''a    |b'', ''a  |b|c''])"
  by code_simp

text \<open>
  C9, amended. The invariant \<open>0 \<le> search_start \<le> len(text)\<close>, \<open>-1 \<le> last_find < len(text)\<close>
  holds at creation when the text is not empty, and every \<^verbatim>\<open>find_next\<close> that returns (as
  it does for every delimiter that is not empty, and whenever \<^verbatim>\<open>alignfirst\<close> is true) and
  every \<^verbatim>\<open>insert\<close> keeps it, also on a line whose text is empty.
\<close>

theorem tracker_inv_preserved:
  "(t \<noteq> [] \<longrightarrow> tracker_inv (LineObj_init b e t)) \<and>
   (tracker_inv self \<and> find_next self alignstr alignfirst = Some (r, self') \<longrightarrow> tracker_inv self') \<and>
   (alignstr \<noteq> [] \<or> alignfirst \<longrightarrow> (\<exists>r self'. find_next self alignstr alignfirst = Some (r, self'))) \<and>
   (tracker_inv self \<longrightarrow> tracker_inv (insert_at self pos val))"
proof (intro conjI impI)
  assume "t \<noteq> []"
  then show "tracker_inv (LineObj_init b e t)"
    by (simp add: tracker_inv_def LineObj_init_def py_len_def)
next
  assume "tracker_inv self \<and> find_next self alignstr alignfirst = Some (r, self')"
  then show "tracker_inv self'" using find_next_inv by blast
next
  assume "alignstr \<noteq> [] \<or> alignfirst"
  then show "\<exists>r self'. find_next self alignstr alignfirst = Some (r, self')"
    by (rule find_next_returns)
next
  assume "tracker_inv self"
  then show "tracker_inv (insert_at self pos val)" by (rule insert_at_inv)
qed

theorem tracker_inv_preserved_witness:
  "''a|b'' \<noteq> [] \<and> tracker_inv (LineObj_init 0 3 ''a|b'') \<and>
   find_next (LineObj_init 0 3 ''a|b'') ''|'' False =
     Some (Inr 1, \<lparr>begin_pt = 0, end_pt = 3, text_of = ''a|b'', search_start = 2, last_find = 1\<rparr>) \<and>
   tracker_inv \<lparr>begin_pt = 0, end_pt = 3, text_of = ''a|b'', search_start = 2, last_find = 1\<rparr> \<and>
   tracker_inv (insert_at (LineObj_init 0 3 ''a|b'') 1 ''  '') \<and>
   tracker_inv \<lparr>begin_pt = 0, end_pt = 0, text_of = [], search_start = 0, last_find = -1\<rparr> \<and>
   find_next \<lparr>begin_pt = 0, end_pt = 0, text_of = [], search_start = 0, last_find = -1\<rparr> ''|'' False =
     Some (Inr (-1), \<lparr>begin_pt = 0, end_pt = 0, text_of = [], search_start = 0, last_find = -1\<rparr>) \<and>
   tracker_inv (insert_at \<lparr>begin_pt = 0, end_pt = 0, text_of = [], search_start = 0, last_find = -1\<rparr> 0 ''  '')"
proof -
  have ne: "''a|b'' \<noteq> []" by simp
  have f: "find_next (LineObj_init 0 3 ''a|b'') ''|'' False =
     Some (Inr 1, \<lparr>begin_pt = 0, end_pt = 3, text_of = ''a|b'', search_start = 2, last_find = 1\<rparr>)"
    by code_simp
  have i0: "tracker_inv \<lparr>begin_pt = 0, end_pt = 0, text_of = [], search_start = 0, last_find = -1\<rparr>"
    by (simp add: tracker_inv_def py_len_def)
  have f0: "find_next \<lparr>begin_pt = 0, end_pt = 0, text_of = [], search_start = 0, last_find = -1\<rparr> ''|'' False =
     Some (Inr (-1), \<lparr>begin_pt = 0, end_pt = 0, text_of = [], search_start = 0, last_find = -1\<rparr>)"
    by code_simp
  note a = tracker_inv_preserved [of "''a|b''" 0 3 "LineObj_init 0 3 ''a|b''" "''|''" False "Inr 1"
      "\<lparr>begin_pt = 0, end_pt = 3, text_of = ''a|b'', search_start = 2, last_find = 1\<rparr>" 1 "''  ''"]
  note b = tracker_inv_preserved [of "''a|b''" 0 3
      "\<lparr>begin_pt = 0, end_pt = 0, text_of = [], search_start = 0, last_find = -1\<rparr>" "''|''" False "Inr (-1)"
      "\<lparr>begin_pt = 0, end_pt = 0, text_of = [], search_start = 0, last_find = -1\<rparr>" 0 "''  ''"]
  from a b ne f i0 f0 show ?thesis by blast
qed

text \<open>
  C9 as claimed includes creation on an empty text: there \<^verbatim>\<open>last_find = 0 = len(text)\<close>.
\<close>

theorem tracker_inv_fails_on_empty_text:
  "\<not> tracker_inv (LineObj_init 0 0 [])"
  by (simp add: tracker_inv_def LineObj_init_def py_len_def)



end
